theory Spec2Isabelle
  imports Main "HOL-Library.Word" "HOL-Library.Signed_Division"
begin

section \<open>Machine types\<close>

text \<open>
  The 3-coloring exercise (directory 1B-3coloring-filipppp) is compiled for a 64-bit
  system: \<open>long\<close> and \<open>size_t\<close> are 64-bit words. The conversion between the two
  (the header word \<open>size\<close> stored into \<open>long data[]\<close>, the \<open>long size\<close> handed to
  \<open>skip_solution(size_t)\<close>) keeps the bits, so both are the same word type here and
  the signed reading is taken with \<open>sint\<close> where the C operator is a signed one.
\<close>

type_synonym long = "64 word"
type_synonym size_t = "64 word"

definition MAX_DATA :: nat where
  "MAX_DATA = 400"

text \<open>\<open>/\<close> and \<open>%\<close> on \<open>long\<close> truncate towards zero.\<close>

definition long_div :: "long \<Rightarrow> long \<Rightarrow> long" where
  "long_div a b = word_of_int (sint a sdiv sint b)"

definition long_rem :: "long \<Rightarrow> long \<Rightarrow> long" where
  "long_rem a b = word_of_int (sint a smod sint b)"

text \<open>
  An index into \<open>long data[MAX_DATA]\<close> is a \<open>long\<close>; the access is defined only for
  \<open>0 \<le> i < MAX_DATA\<close>, and \<open>slot i\<close> is then the array position.
\<close>

definition in_bounds :: "long \<Rightarrow> bool" where
  "in_bounds i \<longleftrightarrow> 0 \<le> sint i \<and> sint i < int MAX_DATA"

definition slot :: "long \<Rightarrow> nat" where
  "slot i = nat (sint i)"

section \<open>The shared region, the semaphores and the process\<close>

text \<open>\<open>shared_memory_t\<close> of shm.h.\<close>

record shared_memory_t =
  halt :: bool
  data :: "long list"
  write_idx :: long
  read_idx :: long

text \<open>The three named semaphores of circular_buffer.c.\<close>

datatype sem_name = SEM_FREE | SEM_USED | SEM_MUTEX

datatype errno_t = ENONE | EINTR | EINVAL

text \<open>The system calls of shm.c and circular_buffer.c that acquire or release a resource.\<close>

datatype syscall =
    ShmOpen | Ftruncate | Mmap | Munmap | Close | ShmUnlink
  | SemOpen sem_name | SemClose sem_name | SemUnlink sem_name

text \<open>
  What the rest of the system does while the process is inside one \<open>sem_wait\<close>:
  nothing (\<open>Proceed\<close>); the supervisor stores \<open>halt = true\<close> into the region
  (\<open>HaltSet\<close>); SIGINT is delivered and the installed handler runs (\<open>Sigint\<close>); the
  call is refused with EINVAL (\<open>Einval\<close>).
\<close>

datatype wait_event = Proceed | HaltSet | Sigint | Einval

text \<open>What the process did, in order: a log kept beside the state, read by no operation.\<close>

datatype event =
    Wait sem_name
  | WaitFailed sem_name
  | Post sem_name
  | Store nat long
  | Load nat long
  | Printf string "long list"
  | Eprintf string
  | Sys syscall bool

text \<open>
  The state one call runs on: the kernel objects (the region behind the name
  \<open>/12023141_shm\<close>, the three semaphore counts, which names exist), what the calling
  process holds (descriptor, mapping, semaphore handles, \<open>errno\<close>, the supervisor's
  global \<open>quit\<close>), and the environment (\<open>waits\<close>: one entry is consumed by each
  \<open>sem_wait\<close>, none left means \<open>Proceed\<close>; \<open>failing\<close>: the resource calls the
  system refuses for a reason of its own).
\<close>

record world =
  region :: shared_memory_t
  sem_value :: "sem_name \<Rightarrow> nat"
  shm_named :: bool
  sem_named :: "sem_name \<Rightarrow> bool"
  fd_open :: bool
  mapped :: bool
  sem_opened :: "sem_name \<Rightarrow> bool"
  errno :: errno_t
  quit :: bool
  waits :: "wait_event list"
  failing :: "syscall set"
  trace :: "event list"

text \<open>
  A call returns a value, never returns because it waits on a semaphore nobody posts
  (\<open>Blocked\<close>; the model runs one process at a time), or leaves defined C behaviour
  (\<open>Fault\<close>: an array index out of range, overflow of an \<open>int\<close> counter).
\<close>

datatype 'a outcome = Ret 'a | Blocked | Fault

section \<open>Semaphore operations\<close>

text \<open>\<open>handle_signal\<close> of supervisor.c.\<close>

definition handle_signal :: "world \<Rightarrow> world" where
  "handle_signal w = w\<lparr>quit := True\<rparr>"

definition acquire :: "sem_name \<Rightarrow> world \<Rightarrow> int outcome \<times> world" where
  "acquire n w =
     (if sem_value w n = 0 then (Blocked, w)
      else (Ret 0, w\<lparr>sem_value := (sem_value w)(n := sem_value w n - 1),
                      trace := trace w @ [Wait n]\<rparr>))"

definition wait_fails :: "sem_name \<Rightarrow> errno_t \<Rightarrow> world \<Rightarrow> int outcome \<times> world" where
  "wait_fails n e w = (Ret (- 1), w\<lparr>errno := e, trace := trace w @ [WaitFailed n]\<rparr>)"

text \<open>
  \<open>sem_wait\<close>: decrements a positive count; on a zero count it waits. A signal delivered
  during the call runs the handler, and fails the call with EINTR only when the call was
  waiting: with a positive count the decrement has already happened.
\<close>

definition sem_wait :: "sem_name \<Rightarrow> world \<Rightarrow> int outcome \<times> world" where
  "sem_wait n w =
     (case waits w of
        [] \<Rightarrow> acquire n w
      | e # es \<Rightarrow>
          (let w1 = w\<lparr>waits := es\<rparr> in
           case e of
             Proceed \<Rightarrow> acquire n w1
           | HaltSet \<Rightarrow> acquire n (w1\<lparr>region := (region w1)\<lparr>halt := True\<rparr>\<rparr>)
           | Sigint \<Rightarrow>
               (if sem_value w1 n = 0 then wait_fails n EINTR (handle_signal w1)
                else acquire n (handle_signal w1))
           | Einval \<Rightarrow> wait_fails n EINVAL w1))"

text \<open>
  \<open>sem_post\<close> increments the count. No caller reads its result, and its refusal of a
  count that has reached SEM_VALUE_MAX is left out: the count is a natural number.
\<close>

definition sem_post :: "sem_name \<Rightarrow> world \<Rightarrow> world" where
  "sem_post n w = w\<lparr>sem_value := (sem_value w)(n := sem_value w n + 1),
                     trace := trace w @ [Post n]\<rparr>"

section \<open>circular\_buffer.c: writing and reading\<close>

text \<open>\<open>edges[k]\<close> on the caller's array; outside the array the read is undefined.\<close>

definition edge_at :: "long list \<Rightarrow> nat \<Rightarrow> long option" where
  "edge_at edges k = (if k < length edges then Some (edges ! k) else None)"

text \<open>\<open>cbuff->shm->data[cbuff->shm->write_idx] = v\<close>.\<close>

definition store_data :: "long \<Rightarrow> world \<Rightarrow> world option" where
  "store_data v w =
     (let i = write_idx (region w) in
      if in_bounds i
      then Some (w\<lparr>region := (region w)\<lparr>data := (data (region w))[slot i := v]\<rparr>,
                    trace := trace w @ [Store (slot i) v]\<rparr>)
      else None)"

text \<open>\<open>cbuff->shm->write_idx++; cbuff->shm->write_idx %= MAX_DATA;\<close>\<close>

definition advance_write :: "world \<Rightarrow> world" where
  "advance_write w =
     (let w1 = w\<lparr>region := (region w)\<lparr>write_idx := write_idx (region w) + 1\<rparr>\<rparr>
      in w1\<lparr>region := (region w1)\<lparr>write_idx := long_rem (write_idx (region w1)) 400\<rparr>\<rparr>)"

text \<open>
  The loop of \<open>add_solution\<close>, \<open>for (int i = 0; i <= size; ++i)\<close>, from counter \<open>i\<close>.
  \<open>Ret True\<close>: the loop ran to its end; \<open>Ret False\<close>: it returned \<open>false\<close> from inside.
\<close>

function add_loop :: "long list \<Rightarrow> size_t \<Rightarrow> nat \<Rightarrow> world \<Rightarrow> bool outcome \<times> world" where
  "add_loop edges sz i w =
     (if i \<le> unat sz then
        if halt (region w) then (Ret False, sem_post SEM_MUTEX w)
        else
          (case sem_wait SEM_FREE w of
             (Blocked, w1) \<Rightarrow> (Blocked, w1)
           | (Fault, w1) \<Rightarrow> (Fault, w1)
           | (Ret r, w1) \<Rightarrow>
               if r = - 1 then (Ret False, sem_post SEM_MUTEX w1)
               else
                 (case (if i = 0 then Some sz else edge_at edges (i - 1)) of
                    None \<Rightarrow> (Fault, w1)
                  | Some v \<Rightarrow>
                      (case store_data v w1 of
                         None \<Rightarrow> (Fault, w1)
                       | Some w2 \<Rightarrow>
                           (let w3 = sem_post SEM_USED (advance_write w2)
                            in if i + 1 < 2 ^ 31 then add_loop edges sz (i + 1) w3
                               else (Fault, w3)))))
      else (Ret True, w))"
  by pat_completeness auto
termination
  by (relation "measure (\<lambda>(edges, sz, i, w). unat sz + 1 - i)") auto

declare add_loop.simps [simp del]

definition add_solution :: "long list \<Rightarrow> size_t \<Rightarrow> world \<Rightarrow> bool outcome \<times> world" where
  "add_solution edges sz w =
     (case sem_wait SEM_MUTEX w of
        (Blocked, w1) \<Rightarrow> (Blocked, w1)
      | (Fault, w1) \<Rightarrow> (Fault, w1)
      | (Ret r, w1) \<Rightarrow>
          if r = - 1 then (Ret False, sem_post SEM_MUTEX w1)
          else
            (case add_loop edges sz 0 w1 of
               (Ret True, w2) \<Rightarrow> (Ret True, sem_post SEM_MUTEX w2)
             | (other, w2) \<Rightarrow> (other, w2)))"

definition read_buffer :: "world \<Rightarrow> long outcome \<times> world" where
  "read_buffer w =
     (case sem_wait SEM_USED w of
        (Blocked, w1) \<Rightarrow> (Blocked, w1)
      | (Fault, w1) \<Rightarrow> (Fault, w1)
      | (Ret r, w1) \<Rightarrow>
          if r = - 1 then (Ret (- 1), sem_post SEM_USED w1)
          else
            (let i = read_idx (region w1) in
             if \<not> in_bounds i then (Fault, w1)
             else
               (let d = data (region w1) ! slot i;
                    w2 = w1\<lparr>region := (region w1)\<lparr>read_idx := i + 1\<rparr>,
                            trace := trace w1 @ [Load (slot i) d]\<rparr>;
                    w3 = w2\<lparr>region := (region w2)\<lparr>read_idx := long_rem (read_idx (region w2)) 400\<rparr>\<rparr>
                in (Ret d, sem_post SEM_FREE w3))))"

text \<open>\<open>printf\<close> and \<open>fprintf(stderr, ...)\<close>: the format and its arguments go to the log.\<close>

definition printf :: "string \<Rightarrow> long list \<Rightarrow> world \<Rightarrow> world" where
  "printf fmt args w = w\<lparr>trace := trace w @ [Printf fmt args]\<rparr>"

definition eprintf :: "string \<Rightarrow> world \<Rightarrow> world" where
  "eprintf msg w = w\<lparr>trace := trace w @ [Eprintf msg]\<rparr>"

text \<open>The loop of \<open>print_solution_string\<close>, \<open>for (int i = 0; i < size; ++i)\<close>.\<close>

function print_loop :: "size_t \<Rightarrow> nat \<Rightarrow> world \<Rightarrow> unit outcome \<times> world" where
  "print_loop sz i w =
     (if i < unat sz then
        (case read_buffer w of
           (Blocked, w1) \<Rightarrow> (Blocked, w1)
         | (Fault, w1) \<Rightarrow> (Fault, w1)
         | (Ret temp, w1) \<Rightarrow>
             if temp = - 1 then (Ret (), w1)
             else
               (let w2 = (if i mod 2 = 0 then printf '' %ld'' [temp] w1
                          else printf ''-%ld'' [temp] w1)
                in if i + 1 < 2 ^ 31 then print_loop sz (i + 1) w2 else (Fault, w2)))
      else (Ret (), w))"
  by pat_completeness auto
termination
  by (relation "measure (\<lambda>(sz, i, w). unat sz - i)") auto

declare print_loop.simps [simp del]

definition print_solution_string :: "size_t \<Rightarrow> world \<Rightarrow> unit outcome \<times> world" where
  "print_solution_string sz w = print_loop sz 0 w"

text \<open>The loop of \<open>skip_solution\<close>.\<close>

function skip_loop :: "size_t \<Rightarrow> nat \<Rightarrow> world \<Rightarrow> unit outcome \<times> world" where
  "skip_loop sz i w =
     (if i < unat sz then
        (case read_buffer w of
           (Blocked, w1) \<Rightarrow> (Blocked, w1)
         | (Fault, w1) \<Rightarrow> (Fault, w1)
         | (Ret temp, w1) \<Rightarrow>
             if temp = - 1 then (Ret (), w1)
             else if i + 1 < 2 ^ 31 then skip_loop sz (i + 1) w1 else (Fault, w1))
      else (Ret (), w))"
  by pat_completeness auto
termination
  by (relation "measure (\<lambda>(sz, i, w). unat sz - i)") auto

declare skip_loop.simps [simp del]

definition skip_solution :: "size_t \<Rightarrow> world \<Rightarrow> unit outcome \<times> world" where
  "skip_solution sz w = skip_loop sz 0 w"

section \<open>Resource calls\<close>

text \<open>
  Each call answers whether it succeeded and is logged with that answer. It fails when
  the environment refuses it (\<open>failing\<close>) or when the object it names is not in the
  state the call needs (\<open>munmap\<close> apart); a failed call changes nothing else.
\<close>

definition logged :: "syscall \<Rightarrow> bool \<Rightarrow> world \<Rightarrow> bool \<times> world" where
  "logged c ok w = (ok, w\<lparr>trace := trace w @ [Sys c ok]\<rparr>)"

text \<open>The contents of a shared memory object that has just been created and sized.\<close>

definition zero_region :: shared_memory_t where
  "zero_region = \<lparr>halt = False, data = replicate MAX_DATA 0, write_idx = 0, read_idx = 0\<rparr>"

text \<open>
  \<open>shm_open(SHM_NAME, flags, 0600)\<close> with \<open>flags = O_RDWR | O_CREAT\<close> (\<open>creat\<close>) or
  \<open>O_RDWR\<close>. There is no \<open>O_EXCL\<close>: an object that exists is opened as it is.
\<close>

definition shm_open :: "bool \<Rightarrow> world \<Rightarrow> bool \<times> world" where
  "shm_open creat w =
     (if ShmOpen \<in> failing w \<or> (\<not> creat \<and> \<not> shm_named w) then logged ShmOpen False w
      else logged ShmOpen True
             (w\<lparr>region := (if shm_named w then region w else zero_region),
                shm_named := True, fd_open := True\<rparr>))"

definition ftruncate :: "world \<Rightarrow> bool \<times> world" where
  "ftruncate w = logged Ftruncate (Ftruncate \<notin> failing w) w"

definition mmap :: "world \<Rightarrow> bool \<times> world" where
  "mmap w =
     (if Mmap \<in> failing w then logged Mmap False w
      else logged Mmap True (w\<lparr>mapped := True\<rparr>))"

text \<open>\<open>munmap\<close>: a range that holds no mapping is not an error.\<close>

definition munmap :: "world \<Rightarrow> bool \<times> world" where
  "munmap w =
     (if Munmap \<in> failing w then logged Munmap False w
      else logged Munmap True (w\<lparr>mapped := False\<rparr>))"

definition close_fd :: "world \<Rightarrow> bool \<times> world" where
  "close_fd w =
     (if Close \<in> failing w \<or> \<not> fd_open w then logged Close False w
      else logged Close True (w\<lparr>fd_open := False\<rparr>))"

definition shm_unlink :: "world \<Rightarrow> bool \<times> world" where
  "shm_unlink w =
     (if ShmUnlink \<in> failing w \<or> \<not> shm_named w then logged ShmUnlink False w
      else logged ShmUnlink True (w\<lparr>shm_named := False\<rparr>))"

text \<open>\<open>sem_open(name, O_CREAT | O_EXCL, 0600, v)\<close>: fails on a name that exists.\<close>

definition sem_open_excl :: "sem_name \<Rightarrow> nat \<Rightarrow> world \<Rightarrow> bool \<times> world" where
  "sem_open_excl n v w =
     (if SemOpen n \<in> failing w \<or> sem_named w n then logged (SemOpen n) False w
      else logged (SemOpen n) True
             (w\<lparr>sem_value := (sem_value w)(n := v),
                sem_named := (sem_named w)(n := True),
                sem_opened := (sem_opened w)(n := True)\<rparr>))"

text \<open>\<open>sem_open(name, 0)\<close>: fails on a name that does not exist.\<close>

definition sem_open_existing :: "sem_name \<Rightarrow> world \<Rightarrow> bool \<times> world" where
  "sem_open_existing n w =
     (if SemOpen n \<in> failing w \<or> \<not> sem_named w n then logged (SemOpen n) False w
      else logged (SemOpen n) True (w\<lparr>sem_opened := (sem_opened w)(n := True)\<rparr>))"

text \<open>\<open>sem_close\<close>: fails on a handle the process does not hold (any more).\<close>

definition sem_close :: "sem_name \<Rightarrow> world \<Rightarrow> bool \<times> world" where
  "sem_close n w =
     (if SemClose n \<in> failing w \<or> \<not> sem_opened w n then logged (SemClose n) False w
      else logged (SemClose n) True (w\<lparr>sem_opened := (sem_opened w)(n := False)\<rparr>))"

definition sem_unlink :: "sem_name \<Rightarrow> world \<Rightarrow> bool \<times> world" where
  "sem_unlink n w =
     (if SemUnlink n \<in> failing w \<or> \<not> sem_named w n then logged (SemUnlink n) False w
      else logged (SemUnlink n) True (w\<lparr>sem_named := (sem_named w)(n := False)\<rparr>))"

text \<open>
  A call whose result the code does not read, and statements run one after the other.
\<close>

definition discard :: "(world \<Rightarrow> 'a \<times> world) \<Rightarrow> world \<Rightarrow> world" where
  "discard f w = snd (f w)"

definition in_order :: "(world \<Rightarrow> world) list \<Rightarrow> world \<Rightarrow> world" where
  "in_order fs w = fold (\<lambda>f. f) fs w"

section \<open>shm.c\<close>

text \<open>
  \<open>open_shm\<close>: \<open>None\<close> is \<open>NULL\<close>, \<open>Some ()\<close> the pointer to the mapped region (there
  is one region, so the pointer carries nothing more).
\<close>

definition open_shm :: "bool \<Rightarrow> world \<Rightarrow> unit option \<times> world" where
  "open_shm server w =
     (case shm_open server w of
        (False, w1) \<Rightarrow> (None, w1)
      | (True, w1) \<Rightarrow>
          (case (if server then ftruncate w1 else (True, w1)) of
             (False, w2) \<Rightarrow> (None, in_order [discard shm_unlink, discard close_fd] w2)
           | (True, w2) \<Rightarrow>
               (case mmap w2 of
                  (False, w3) \<Rightarrow> (None, in_order [discard shm_unlink, discard close_fd] w3)
                | (True, w3) \<Rightarrow>
                    (Some (),
                     if server
                     then w3\<lparr>region := (region w3)\<lparr>read_idx := 0, write_idx := 0, halt := False\<rparr>\<rparr>
                     else w3))))"

definition close_shm :: "bool \<Rightarrow> world \<Rightarrow> bool \<times> world" where
  "close_shm server w =
     (let status0 = True;
          (ok1, w1) = munmap w;
          status1 = (if \<not> ok1 then False else status0);
          (ok2, w2) = close_fd w1;
          status2 = (if \<not> ok2 then False else status1)
      in if server then
           (let (ok3, w3) = shm_unlink w2
            in (if \<not> ok3 then False else status2, w3))
         else (status2, w2))"

section \<open>circular\_buffer.c: opening and closing\<close>

definition open_cbuff :: "bool \<Rightarrow> world \<Rightarrow> unit option \<times> world" where
  "open_cbuff server w =
     (case open_shm server w of
        (None, w1) \<Rightarrow> (None, w1)
      | (Some _, w1) \<Rightarrow>
          if server then
            (case sem_open_excl SEM_FREE MAX_DATA w1 of
               (False, w2) \<Rightarrow> (None, discard (close_shm server) w2)
             | (True, w2) \<Rightarrow>
                 (case sem_open_excl SEM_USED 0 w2 of
                    (False, w3) \<Rightarrow>
                      (None, in_order [discard (sem_close SEM_FREE), discard (sem_unlink SEM_FREE),
                                       discard (close_shm server)] w3)
                  | (True, w3) \<Rightarrow>
                      (case sem_open_excl SEM_MUTEX 1 w3 of
                         (False, w4) \<Rightarrow>
                           (None, in_order [discard (sem_close SEM_FREE), discard (sem_unlink SEM_FREE),
                                            discard (sem_close SEM_FREE), discard (sem_unlink SEM_FREE),
                                            discard (close_shm server)] w4)
                       | (True, w4) \<Rightarrow> (Some (), w4))))
          else
            (case sem_open_existing SEM_FREE w1 of
               (False, w2) \<Rightarrow> (None, w2)
             | (True, w2) \<Rightarrow>
                 (case sem_open_existing SEM_USED w2 of
                    (False, w3) \<Rightarrow> (None, discard (sem_close SEM_FREE) w3)
                  | (True, w3) \<Rightarrow>
                      (case sem_open_existing SEM_MUTEX w3 of
                         (False, w4) \<Rightarrow>
                           (None, in_order [discard (sem_close SEM_FREE),
                                            discard (sem_close SEM_USED)] w4)
                       | (True, w4) \<Rightarrow> (Some (), w4)))))"

definition set_halt :: "world \<Rightarrow> world" where
  "set_halt w = w\<lparr>region := (region w)\<lparr>halt := True\<rparr>\<rparr>"

definition close_cbuff :: "bool \<Rightarrow> world \<Rightarrow> bool \<times> world" where
  "close_cbuff server w =
     (let w1 = (if server then in_order [sem_post SEM_FREE, sem_post SEM_USED, set_halt] w else w);
          w2 = in_order [discard (sem_close SEM_FREE), discard (sem_close SEM_USED),
                         discard (sem_close SEM_MUTEX)] w1;
          w3 = (if server
                then in_order [discard (sem_unlink SEM_FREE), discard (sem_unlink SEM_USED),
                               discard (sem_unlink SEM_MUTEX)] w2
                else w2)
      in case close_shm server w3 of
           (False, w4) \<Rightarrow> (False, w4)
         | (True, w4) \<Rightarrow> (True, w4))"

section \<open>supervisor.c\<close>

definition EXIT_SUCCESS :: int where
  "EXIT_SUCCESS = 0"

definition EXIT_FAILURE :: int where
  "EXIT_FAILURE = 1"

text \<open>
  One pass through the body of \<open>while (!quit)\<close>: it ends with the next value of
  \<open>min_deletions\<close> (\<open>Continue\<close>, also for the \<open>continue\<close> statement) or with
  \<open>exit(code)\<close>.
\<close>

datatype pass = Continue long | Exit int

definition supervisor_pass :: "long \<Rightarrow> world \<Rightarrow> pass outcome \<times> world" where
  "supervisor_pass min_deletions w =
     (case read_buffer w of
        (Blocked, w1) \<Rightarrow> (Blocked, w1)
      | (Fault, w1) \<Rightarrow> (Fault, w1)
      | (Ret sz, w1) \<Rightarrow>
          if sz = - 1 then
            (if errno w1 = EINTR then (Ret (Continue min_deletions), w1)
             else
               (case close_cbuff False w1 of
                  (False, w2) \<Rightarrow>
                    (Ret (Exit EXIT_FAILURE),
                     eprintf ''[./supervisor] ERROR: Couldn't close circular buffer. \<newline>'' w2)
                | (True, w2) \<Rightarrow>
                    (Ret (Exit EXIT_FAILURE),
                     eprintf ''[./supervisor] ERROR: Interrupt error. \<newline>Usage: ./supervisor \<newline>'' w2)))
          else
            (let deletions = long_div sz 2 in
             if min_deletions = - 1 \<or> deletions <s min_deletions then
               (if deletions = 0 then
                  (Ret (Continue deletions),
                   (printf ''[./supervisor] The graph is 3-colorable!\<newline>'' [] w1)\<lparr>quit := True\<rparr>)
                else
                  (case print_solution_string sz
                          (printf ''[./supervisor] Solution with %ld edges:'' [deletions] w1) of
                     (Blocked, w2) \<Rightarrow> (Blocked, w2)
                   | (Fault, w2) \<Rightarrow> (Fault, w2)
                   | (Ret _, w2) \<Rightarrow> (Ret (Continue deletions), printf ''\<newline>'' [] w2)))
             else
               (case skip_solution sz w1 of
                  (Blocked, w2) \<Rightarrow> (Blocked, w2)
                | (Fault, w2) \<Rightarrow> (Fault, w2)
                | (Ret _, w2) \<Rightarrow> (Ret (Continue min_deletions), w2))))"

text \<open>
  Every \<open>sem_wait\<close> that returns has used up an entry of \<open>waits\<close> or a unit of the
  count it waits on, which bounds the number of passes of the supervisor's loop.
\<close>

definition budget :: "world \<Rightarrow> nat" where
  "budget w = 2 * length (waits w) + sem_value w SEM_USED"

lemma sem_wait_returns:
  assumes "sem_wait n w = (Ret r, w1)"
  shows "(r = 0 \<and> 0 < sem_value w n \<and> sem_value w1 = (sem_value w)(n := sem_value w n - 1) \<and>
           length (waits w1) \<le> length (waits w)) \<or>
         (r = - 1 \<and> sem_value w1 = sem_value w \<and> length (waits w1) < length (waits w))"
  using assms
  by (auto simp: sem_wait_def acquire_def wait_fails_def handle_signal_def Let_def
      split: list.splits wait_event.splits if_splits)

lemma read_buffer_budget:
  assumes "read_buffer w = (Ret d, w1)"
  shows "budget w1 < budget w"
proof (cases "sem_wait SEM_USED w")
  case (Pair o1 v)
  show ?thesis
  proof (cases o1)
    case (Ret r)
    from sem_wait_returns[OF Pair[unfolded Ret]] assms Pair Ret show ?thesis
      by (auto simp: read_buffer_def budget_def sem_post_def Let_def split: if_splits)
  next
    case Blocked
    with assms Pair show ?thesis by (simp add: read_buffer_def)
  next
    case Fault
    with assms Pair show ?thesis by (simp add: read_buffer_def)
  qed
qed

lemma print_loop_budget:
  "print_loop sz i w = (Ret u, w') \<Longrightarrow> budget w' \<le> budget w"
proof (induction sz i w rule: print_loop.induct)
  case (1 sz i w)
  show ?case
  proof (cases "i < unat sz")
    case False
    with "1.prems" show ?thesis by (subst (asm) print_loop.simps) simp
  next
    case True
    obtain o1 w1 where rb: "read_buffer w = (o1, w1)" by (cases "read_buffer w")
    show ?thesis
    proof (cases o1)
      case (Ret temp)
      have b: "budget w1 < budget w" using rb Ret by (simp add: read_buffer_budget)
      show ?thesis
      proof (cases "temp = - 1")
        case True
        with "1.prems" \<open>i < unat sz\<close> rb Ret b show ?thesis
          by (subst (asm) print_loop.simps) simp
      next
        case False
        let ?w2 = "if i mod 2 = 0 then printf '' %ld'' [temp] w1 else printf ''-%ld'' [temp] w1"
        have w2: "budget ?w2 = budget w1" by (simp add: printf_def budget_def)
        show ?thesis
        proof (cases "i + 1 < 2 ^ 31")
          case small: True
          have "print_loop sz (i + 1) ?w2 = (Ret u, w')"
            using "1.prems" \<open>i < unat sz\<close> rb Ret False small
            by (subst (asm) print_loop.simps) (simp add: Let_def)
          from "1.IH"[OF \<open>i < unat sz\<close> rb[symmetric] Ret False refl small this]
          show ?thesis using w2 b by simp
        next
          case big: False
          with "1.prems" \<open>i < unat sz\<close> rb Ret False show ?thesis
            by (subst (asm) print_loop.simps) (simp add: Let_def)
        qed
      qed
    next
      case Blocked
      with "1.prems" True rb show ?thesis by (subst (asm) print_loop.simps) simp
    next
      case Fault
      with "1.prems" True rb show ?thesis by (subst (asm) print_loop.simps) simp
    qed
  qed
qed

lemma skip_loop_budget:
  "skip_loop sz i w = (Ret u, w') \<Longrightarrow> budget w' \<le> budget w"
proof (induction sz i w rule: skip_loop.induct)
  case (1 sz i w)
  show ?case
  proof (cases "i < unat sz")
    case False
    with "1.prems" show ?thesis by (subst (asm) skip_loop.simps) simp
  next
    case True
    obtain o1 w1 where rb: "read_buffer w = (o1, w1)" by (cases "read_buffer w")
    show ?thesis
    proof (cases o1)
      case (Ret temp)
      have b: "budget w1 < budget w" using rb Ret by (simp add: read_buffer_budget)
      show ?thesis
      proof (cases "temp = - 1")
        case True
        with "1.prems" \<open>i < unat sz\<close> rb Ret b show ?thesis
          by (subst (asm) skip_loop.simps) simp
      next
        case False
        show ?thesis
        proof (cases "i + 1 < 2 ^ 31")
          case small: True
          have "skip_loop sz (i + 1) w1 = (Ret u, w')"
            using "1.prems" \<open>i < unat sz\<close> rb Ret False small
            by (subst (asm) skip_loop.simps) simp
          from "1.IH"[OF \<open>i < unat sz\<close> rb[symmetric] Ret False small this]
          show ?thesis using b by simp
        next
          case big: False
          with "1.prems" \<open>i < unat sz\<close> rb Ret False show ?thesis
            by (subst (asm) skip_loop.simps) simp
        qed
      qed
    next
      case Blocked
      with "1.prems" True rb show ?thesis by (subst (asm) skip_loop.simps) simp
    next
      case Fault
      with "1.prems" True rb show ?thesis by (subst (asm) skip_loop.simps) simp
    qed
  qed
qed

lemma supervisor_pass_budget:
  assumes "supervisor_pass min_deletions w = (Ret (Continue m), w')"
  shows "budget w' < budget w"
proof -
  obtain o1 w1 where rb: "read_buffer w = (o1, w1)" by (cases "read_buffer w")
  show ?thesis
  proof (cases o1)
    case (Ret sz)
    have b: "budget w1 < budget w" using rb Ret by (simp add: read_buffer_budget)
    have pf: "budget (printf fmt args v) = budget v" for fmt args v
      by (simp add: printf_def budget_def)
    have q: "budget (v\<lparr>quit := True\<rparr>) = budget v" for v
      by (simp add: budget_def)
    have p: "budget w2 \<le> budget w1"
      if "print_solution_string sz (printf fmt args w1) = (Ret u, w2)" for fmt args u w2
      using print_loop_budget[of sz 0 "printf fmt args w1" u w2] that
      by (simp add: print_solution_string_def pf)
    have s: "budget w2 \<le> budget w1" if "skip_solution sz w1 = (Ret u, w2)" for u w2
      using skip_loop_budget[of sz 0 w1 u w2] that by (simp add: skip_solution_def)
    from assms rb Ret b show ?thesis
      by (auto simp: supervisor_pass_def Let_def pf q
          split: if_splits prod.splits outcome.splits bool.splits dest!: p s)
  next
    case Blocked
    with assms rb show ?thesis by (simp add: supervisor_pass_def)
  next
    case Fault
    with assms rb show ?thesis by (simp add: supervisor_pass_def)
  qed
qed

text \<open>
  \<open>while (!quit) { ... }\<close> of \<open>main\<close>. \<open>Ret (Continue m)\<close>: the loop was left with
  \<open>min_deletions = m\<close> and \<open>main\<close> goes on below it.
\<close>

function supervisor_loop :: "long \<Rightarrow> world \<Rightarrow> pass outcome \<times> world" where
  "supervisor_loop min_deletions w =
     (if quit w then (Ret (Continue min_deletions), w)
      else
        (case supervisor_pass min_deletions w of
           (Ret (Continue m), w1) \<Rightarrow> supervisor_loop m w1
         | (other, w1) \<Rightarrow> (other, w1)))"
  by pat_completeness auto
termination
  by (relation "measure (\<lambda>(m, w). budget w)") (auto dest: supervisor_pass_budget[OF sym])

declare supervisor_loop.simps [simp del]

text \<open>\<open>main\<close> of supervisor.c from the loop on: the buffer has been opened.\<close>

definition supervisor_run :: "world \<Rightarrow> int outcome \<times> world" where
  "supervisor_run w =
     (case supervisor_loop (- 1) w of
        (Blocked, w1) \<Rightarrow> (Blocked, w1)
      | (Fault, w1) \<Rightarrow> (Fault, w1)
      | (Ret (Exit c), w1) \<Rightarrow> (Ret c, w1)
      | (Ret (Continue _), w1) \<Rightarrow>
          (case close_cbuff True (set_halt w1) of
             (False, w2) \<Rightarrow>
               (Ret EXIT_FAILURE,
                eprintf ''[./supervisor] ERROR: Couldnt close circular buffer. \<newline>'' w2)
           | (True, w2) \<Rightarrow> (Ret EXIT_SUCCESS, w2)))"

definition supervisor_main :: "nat \<Rightarrow> world \<Rightarrow> int outcome \<times> world" where
  "supervisor_main argc w =
     (let w0 = (if 1 < argc
                then eprintf ''[./supervisor] ERROR: This program doesn't take in any args. \<newline>Usage: ./supervisor \<newline>'' w
                else w)
      in case open_cbuff True w0 of
           (None, w1) \<Rightarrow>
             (Ret EXIT_FAILURE, eprintf ''[./supervisor] Error opening Circular Buffer. \<newline>'' w1)
         | (Some _, w1) \<Rightarrow> supervisor_run w1)"

text \<open>The consumer of a frame: \<open>n\<close> calls of \<open>read_buffer\<close> in a row, the words collected.\<close>

fun read_sequence :: "nat \<Rightarrow> world \<Rightarrow> long list outcome \<times> world" where
  "read_sequence 0 w = (Ret [], w)"
| "read_sequence (Suc n) w =
     (case read_buffer w of
        (Blocked, w1) \<Rightarrow> (Blocked, w1)
      | (Fault, w1) \<Rightarrow> (Fault, w1)
      | (Ret d, w1) \<Rightarrow>
          (case read_sequence n w1 of
             (Ret ds, w2) \<Rightarrow> (Ret (d # ds), w2)
           | (other, w2) \<Rightarrow> (other, w2)))"

section \<open>The ring as a queue\<close>

text \<open>
  The region is well formed when the array has its declared length and both cursors
  index it. The words not yet consumed are the \<open>used\<close> count many slots from
  \<open>read_idx\<close> on, wrapping at \<open>MAX_DATA\<close>.
\<close>

definition well_formed :: "world \<Rightarrow> bool" where
  "well_formed w \<longleftrightarrow>
     length (data (region w)) = MAX_DATA \<and>
     in_bounds (read_idx (region w)) \<and> in_bounds (write_idx (region w))"

definition pending :: "world \<Rightarrow> long list" where
  "pending w =
     map (\<lambda>k. data (region w) ! ((slot (read_idx (region w)) + k) mod MAX_DATA))
       [0..<sem_value w SEM_USED]"

definition ring_inv :: "world \<Rightarrow> bool" where
  "ring_inv w \<longleftrightarrow>
     well_formed w \<and>
     sem_value w SEM_USED + sem_value w SEM_FREE = MAX_DATA \<and>
     slot (write_idx (region w)) =
       (slot (read_idx (region w)) + sem_value w SEM_USED) mod MAX_DATA"

section \<open>Concrete states\<close>

text \<open>
  A system on which none of the names exists and nothing is scheduled to fail or to
  interrupt, and the state in which the supervisor has opened the buffer on it.
\<close>

definition boot :: world where
  "boot = \<lparr>region = zero_region, sem_value = (\<lambda>n. 0), shm_named = False,
            sem_named = (\<lambda>n. False), fd_open = False, mapped = False,
            sem_opened = (\<lambda>n. False), errno = ENONE, quit = False, waits = [],
            failing = {}, trace = []\<rparr>"

definition served :: world where
  "served = (snd (open_cbuff True boot))\<lparr>trace := []\<rparr>"

text \<open>
  A system on which the region's name is left over from an earlier run, with its old
  contents, and no semaphore exists.
\<close>

definition stale :: world where
  "stale = boot\<lparr>shm_named := True,
                  region := zero_region\<lparr>data := (data zero_region)[3 := 4, 4 := 7],
                                          write_idx := 5, read_idx := 3\<rparr>\<rparr>"

text \<open>
  The buffer after one producer has submitted the frame with header 0, and after one has
  submitted the frame \<open>2 | -1 | -1\<close>.
\<close>

definition zero_frame :: world where
  "zero_frame = snd (add_solution [] 0 served)"

definition sentinel_frame :: world where
  "sentinel_frame = snd (add_solution [- 1, - 1] 2 served)"

text \<open>The buffer after a producer has submitted the frame \<open>4 | 10 | 20 | 30 | 5\<close> and then the frame with header 0.\<close>

definition two_frames :: world where
  "two_frames = snd (add_solution [] 0 (snd (add_solution [10, 20, 30, 5] 4 served)))"

section \<open>The run of the supervisor\<close>

text \<open>
  \<open>intact\<close>: the process holds the descriptor, the mapping and the three semaphore
  handles, all four names exist and the system refuses nothing. \<open>released\<close>: none of
  them is held and none of the names exists. \<open>arrives m w m' w'\<close>: the supervisor's loop,
  at its test with \<open>min_deletions = m\<close> in state \<open>w\<close>, comes by zero or more passes to
  its test with \<open>min_deletions = m'\<close> in state \<open>w'\<close>.
\<close>

definition intact :: "world \<Rightarrow> bool" where
  "intact w \<longleftrightarrow>
     failing w = {} \<and> shm_named w \<and> fd_open w \<and> mapped w \<and>
     sem_named w SEM_FREE \<and> sem_named w SEM_USED \<and> sem_named w SEM_MUTEX \<and>
     sem_opened w SEM_FREE \<and> sem_opened w SEM_USED \<and> sem_opened w SEM_MUTEX"

definition released :: "world \<Rightarrow> bool" where
  "released w \<longleftrightarrow>
     \<not> shm_named w \<and> \<not> fd_open w \<and> \<not> mapped w \<and>
     \<not> sem_named w SEM_FREE \<and> \<not> sem_named w SEM_USED \<and> \<not> sem_named w SEM_MUTEX \<and>
     \<not> sem_opened w SEM_FREE \<and> \<not> sem_opened w SEM_USED \<and> \<not> sem_opened w SEM_MUTEX"

inductive arrives :: "long \<Rightarrow> world \<Rightarrow> long \<Rightarrow> world \<Rightarrow> bool" where
  here: "arrives m w m w"
| pass: "\<not> quit w \<Longrightarrow> supervisor_pass m w = (Ret (Continue m1), w1) \<Longrightarrow>
         arrives m1 w1 m2 w2 \<Longrightarrow> arrives m w m2 w2"

section \<open>The log of a frame write\<close>

text \<open>
  One word written by \<open>add_solution\<close> leaves three entries in the log: the wait on
  \<open>free\<close>, the store into a slot, the post on \<open>used\<close>. \<open>word_cycles p ws\<close> is the
  log of writing the words \<open>ws\<close> one after the other from slot \<open>p\<close> on, and
  \<open>cycles p ws i j\<close> that of the words \<open>i\<close> to \<open>j - 1\<close> of \<open>ws\<close>.
\<close>

definition cycle :: "nat \<Rightarrow> long \<Rightarrow> event list" where
  "cycle p v = [Wait SEM_FREE, Store p v, Post SEM_USED]"

definition cycles :: "nat \<Rightarrow> long list \<Rightarrow> nat \<Rightarrow> nat \<Rightarrow> event list" where
  "cycles p ws i j = concat (map (\<lambda>k. cycle ((p + (k - i)) mod MAX_DATA) (ws ! k)) [i..<j])"

definition word_cycles :: "nat \<Rightarrow> long list \<Rightarrow> event list" where
  "word_cycles p ws =
     concat (map (\<lambda>k. [Wait SEM_FREE, Store ((p + k) mod MAX_DATA) (ws ! k), Post SEM_USED])
               [0..<length ws])"

text \<open>What a log shows of the output, of the words read and of failed waits.\<close>

fun is_print :: "event \<Rightarrow> bool" where
  "is_print (Printf fmt args) = True"
| "is_print e = False"

fun is_failure :: "event \<Rightarrow> bool" where
  "is_failure (WaitFailed n) = True"
| "is_failure e = False"

fun loaded :: "event \<Rightarrow> long list" where
  "loaded (Load p d) = [d]"
| "loaded e = []"

definition printed :: "event list \<Rightarrow> event list" where
  "printed evs = filter is_print evs"

definition failed_waits :: "event list \<Rightarrow> event list" where
  "failed_waits evs = filter is_failure evs"

definition loads :: "event list \<Rightarrow> long list" where
  "loads evs = concat (map loaded evs)"

text \<open>
  Of the payload \<open>ws\<close> of a frame, \<open>print_solution_string\<close> prints the words before the
  first one equal to \<open>-1\<close> (\<open>shown\<close>), and both it and \<open>skip_solution\<close> take from the
  buffer these words and that \<open>-1\<close>, if there is one (\<open>consumed\<close>).
\<close>

definition shown :: "long list \<Rightarrow> long list" where
  "shown ws = takeWhile (\<lambda>x. x \<noteq> - 1) ws"

definition consumed :: "long list \<Rightarrow> nat" where
  "consumed ws = length (shown ws) + (if shown ws = ws then 0 else 1)"


section \<open>Cursor arithmetic\<close>

lemma sint_succ:
  assumes "in_bounds i"
  shows "sint (i + 1) = sint i + 1"
proof -
  have "sint (i + 1) = signed_take_bit (LENGTH(64) - 1) (sint i + sint (1::long))"
    by (rule sint_word_add)
  also have "\<dots> = sint i + 1"
    using assms by (simp add: in_bounds_def MAX_DATA_def signed_take_bit_int_eq_self)
  finally show ?thesis .
qed

lemma sint_long_rem_succ:
  assumes "in_bounds i"
  shows "sint (long_rem (i + 1) 400) = (sint i + 1) mod 400"
proof -
  have b: "0 \<le> sint i" "sint i < 400"
    using assms by (simp_all add: in_bounds_def MAX_DATA_def)
  have "sint (i + 1) smod sint (400::long) = (sint i + 1) mod 400"
    using b by (simp add: sint_succ[OF assms] signed_modulo_int_def)
  moreover have "0 \<le> (sint i + 1) mod 400" "(sint i + 1) mod 400 < 400"
    by simp_all
  ultimately show ?thesis
    by (simp add: long_rem_def sint_sbintrunc' signed_take_bit_int_eq_self)
qed

lemma cursor_advance:
  assumes "in_bounds i"
  shows "in_bounds (long_rem (i + 1) 400)"
    and "slot (long_rem (i + 1) 400) = (slot i + 1) mod MAX_DATA"
  using assms sint_long_rem_succ[OF assms]
  by (simp_all add: in_bounds_def MAX_DATA_def slot_def nat_mod_distrib nat_add_distrib)

lemma slot_less: "in_bounds i \<Longrightarrow> slot i < MAX_DATA"
  unfolding in_bounds_def slot_def by linarith

lemma sem_wait_quiet:
  assumes "waits w = []" "0 < sem_value w n"
  shows "sem_wait n w = (Ret 0, w\<lparr>sem_value := (sem_value w)(n := sem_value w n - 1),
                      trace := trace w @ [Wait n]\<rparr>)"
  using assms by (simp add: sem_wait_def acquire_def)

lemma ring_distinct:
  fixes r k u n :: nat
  assumes "k < u" "u < n"
  shows "(r + k) mod n \<noteq> (r + u) mod n"
proof
  assume "(r + k) mod n = (r + u) mod n"
  then have "(r + u) mod n = (r + k) mod n" by simp
  moreover have "r + k \<le> r + u" using assms by simp
  ultimately have "n dvd (r + u) - (r + k)"
    by (simp add: mod_eq_dvd_iff_nat)
  then have "n dvd u - k" by simp
  then have "n \<le> u - k" using assms by (auto dest: dvd_imp_le)
  then show False using assms by simp
qed

lemma write_cycle:
  assumes inv: "ring_inv w" and q: "waits w = []" and f: "0 < sem_value w SEM_FREE"
  shows "\<exists>w1 w2. sem_wait SEM_FREE w = (Ret 0, w1) \<and> store_data v w1 = Some w2 \<and>
           ring_inv (sem_post SEM_USED (advance_write w2)) \<and>
           pending (sem_post SEM_USED (advance_write w2)) = pending w @ [v] \<and>
           waits (sem_post SEM_USED (advance_write w2)) = [] \<and>
           halt (region (sem_post SEM_USED (advance_write w2))) = halt (region w) \<and>
           sem_value (sem_post SEM_USED (advance_write w2)) SEM_FREE = sem_value w SEM_FREE - 1 \<and>
           sem_value (sem_post SEM_USED (advance_write w2)) SEM_MUTEX = sem_value w SEM_MUTEX"
proof -
  let ?w1 = "w\<lparr>sem_value := (sem_value w)(SEM_FREE := sem_value w SEM_FREE - 1),
                      trace := trace w @ [Wait SEM_FREE]\<rparr>"
  have w1: "sem_wait SEM_FREE w = (Ret 0, ?w1)"
    using q f by (rule sem_wait_quiet)
  have wb: "in_bounds (write_idx (region w))" and rb: "in_bounds (read_idx (region w))"
    and len: "length (data (region w)) = MAX_DATA"
    using inv by (simp_all add: ring_inv_def well_formed_def)
  let ?i = "slot (write_idx (region w))"
  let ?w2 = "?w1\<lparr>region := (region ?w1)\<lparr>data := (data (region ?w1))[?i := v]\<rparr>,
                    trace := trace ?w1 @ [Store ?i v]\<rparr>"
  have w2: "store_data v ?w1 = Some ?w2"
    using wb by (simp add: store_data_def Let_def)
  let ?w3 = "sem_post SEM_USED (advance_write ?w2)"
  let ?u = "sem_value w SEM_USED"
  let ?r = "slot (read_idx (region w))"
  have sum: "?u + sem_value w SEM_FREE = MAX_DATA"
    and cur: "?i = (?r + ?u) mod MAX_DATA"
    using inv by (simp_all add: ring_inv_def)
  have u: "?u < MAX_DATA" using sum f by simp
  have reg3: "region ?w3 = (region w)\<lparr>data := (data (region w))[?i := v],
       write_idx := long_rem (write_idx (region w) + 1) 400\<rparr>"
    by (simp add: sem_post_def advance_write_def Let_def)
  have sem3: "sem_value ?w3 = (sem_value w)(SEM_FREE := sem_value w SEM_FREE - 1, SEM_USED := ?u + 1)"
    by (simp add: sem_post_def advance_write_def Let_def)
  have w3q: "waits ?w3 = []"
    using q by (simp add: sem_post_def advance_write_def Let_def)
  have cur3: "slot (long_rem (write_idx (region w) + 1) 400) = (?r + (?u + 1)) mod MAX_DATA"
    using cursor_advance(2)[OF wb] cur by (simp add: mod_Suc_eq)
  have inv3: "ring_inv ?w3"
    unfolding ring_inv_def well_formed_def reg3 sem3
    using wb rb len sum cur3 f cursor_advance(1)[OF wb] by simp
  have pend: "pending ?w3 = pending w @ [v]"
  proof -
    have a: "(data (region w))[?i := v] ! ((?r + k) mod MAX_DATA)
        = data (region w) ! ((?r + k) mod MAX_DATA)" if "k < ?u" for k
    proof -
      have "?i \<noteq> (?r + k) mod MAX_DATA"
        using ring_distinct[OF that u, of ?r] cur by simp
      then show ?thesis by simp
    qed
    have b: "(data (region w))[?i := v] ! ((?r + ?u) mod MAX_DATA) = v"
      using len cur slot_less[OF wb] by simp
    show ?thesis
      unfolding pending_def reg3 sem3 using a b by simp
  qed
  show ?thesis
    using w1 w2 inv3 pend w3q reg3 sem3 by simp
qed


lemma tl_map_upt: "tl (map f [0..<n]) = map (\<lambda>k. f (Suc k)) [0..<n - 1]"
proof (cases n)
  case 0
  then show ?thesis by simp
next
  case (Suc m)
  have "[0..<Suc m] = 0 # map Suc [0..<m]"
    by (simp add: upt_conv_Cons map_Suc_upt del: upt_Suc)
  then show ?thesis using Suc by (simp add: comp_def del: upt_Suc)
qed

lemma read_cycle:
  assumes inv: "ring_inv w" and q: "waits w = []" and u: "0 < sem_value w SEM_USED"
  shows "\<exists>w'. read_buffer w = (Ret (hd (pending w)), w') \<and> ring_inv w' \<and>
           pending w' = tl (pending w) \<and> waits w' = [] \<and>
           halt (region w') = halt (region w) \<and>
           sem_value w' SEM_USED = sem_value w SEM_USED - 1 \<and>
           sem_value w' SEM_MUTEX = sem_value w SEM_MUTEX \<and>
           trace w' = trace w @ [Wait SEM_USED, Load (slot (read_idx (region w))) (hd (pending w)),
                                 Post SEM_FREE] \<and>
           errno w' = errno w \<and> quit w' = quit w"
proof -
  let ?u = "sem_value w SEM_USED"
  let ?r = "slot (read_idx (region w))"
  let ?d = "data (region w) ! ?r"
  let ?w' = "w\<lparr>sem_value := (sem_value w)(SEM_USED := ?u - 1, SEM_FREE := sem_value w SEM_FREE + 1),
       region := (region w)\<lparr>read_idx := long_rem (read_idx (region w) + 1) 400\<rparr>,
       trace := trace w @ [Wait SEM_USED, Load ?r ?d, Post SEM_FREE]\<rparr>"
  have wb: "in_bounds (write_idx (region w))" and rb: "in_bounds (read_idx (region w))"
    and len: "length (data (region w)) = MAX_DATA"
    and sum: "?u + sem_value w SEM_FREE = MAX_DATA"
    and cur: "slot (write_idx (region w)) = (?r + ?u) mod MAX_DATA"
    using inv by (simp_all add: ring_inv_def well_formed_def)
  have rd: "read_buffer w = (Ret ?d, ?w')"
    using rb by (simp add: read_buffer_def sem_wait_quiet[OF q u] sem_post_def Let_def)
  have hd: "hd (pending w) = ?d"
    using u slot_less[OF rb] by (simp add: pending_def hd_map upt_conv_Cons)
  have r': "slot (long_rem (read_idx (region w) + 1) 400) = (?r + 1) mod MAX_DATA"
    by (rule cursor_advance(2)[OF rb])
  have "((?r + 1) mod MAX_DATA + (?u - 1)) mod MAX_DATA = ((?r + 1) + (?u - 1)) mod MAX_DATA"
    by (rule mod_add_left_eq)
  also have "(?r + 1) + (?u - 1) = ?r + ?u"
    using u by simp
  finally have cur': "slot (write_idx (region w)) = ((?r + 1) mod MAX_DATA + (?u - 1)) mod MAX_DATA"
    using cur by simp
  have inv': "ring_inv ?w'"
    unfolding ring_inv_def well_formed_def
    using wb len sum u cur' r' cursor_advance(1)[OF rb] by simp
  have "tl (pending w) = map (\<lambda>k. data (region w) ! ((?r + Suc k) mod MAX_DATA)) [0..<?u - 1]"
    unfolding pending_def by (rule tl_map_upt)
  moreover have "((?r + 1) mod MAX_DATA + k) mod MAX_DATA = (?r + Suc k) mod MAX_DATA" for k
    by (simp add: mod_add_left_eq)
  ultimately have pend: "pending ?w' = tl (pending w)"
    by (simp add: pending_def r')
  show ?thesis
    using rd hd inv' pend q by simp
qed


lemma add_loop_queue:
  assumes "ring_inv w" "waits w = []" "\<not> halt (region w)"
    and "i \<le> unat sz + 1" "unat sz \<le> length edges" "unat sz + 1 < 2 ^ 31"
    and "unat sz + 1 - i \<le> sem_value w SEM_FREE"
  shows "\<exists>w'. add_loop edges sz i w = (Ret True, w') \<and> ring_inv w' \<and> waits w' = [] \<and>
           \<not> halt (region w') \<and>
           pending w' = pending w @ drop i (sz # take (unat sz) edges) \<and>
           sem_value w' SEM_MUTEX = sem_value w SEM_MUTEX"
  using assms
proof (induction "unat sz + 1 - i" arbitrary: i w)
  case 0
  then have "\<not> i \<le> unat sz" and "length (sz # take (unat sz) edges) \<le> i"
    by simp_all
  then show ?case
    using "0.prems"(1-3) by (subst add_loop.simps) simp
next
  case (Suc n)
  then have i: "i \<le> unat sz" and f: "0 < sem_value w SEM_FREE"
    by linarith+
  define v where "v = (sz # edges) ! i"
  have src: "(if i = 0 then Some sz else edge_at edges (i - 1)) = Some v"
    using i Suc.prems(5) by (cases i) (simp_all add: v_def edge_at_def)
  obtain w1 w2 where c: "sem_wait SEM_FREE w = (Ret 0, w1)" "store_data v w1 = Some w2"
    "ring_inv (sem_post SEM_USED (advance_write w2))"
    "pending (sem_post SEM_USED (advance_write w2)) = pending w @ [v]"
    "waits (sem_post SEM_USED (advance_write w2)) = []"
    "halt (region (sem_post SEM_USED (advance_write w2))) = halt (region w)"
    "sem_value (sem_post SEM_USED (advance_write w2)) SEM_FREE = sem_value w SEM_FREE - 1"
    "sem_value (sem_post SEM_USED (advance_write w2)) SEM_MUTEX = sem_value w SEM_MUTEX"
    using write_cycle[OF Suc.prems(1,2) f, of v] by blast
  let ?w3 = "sem_post SEM_USED (advance_write w2)"
  have step: "add_loop edges sz i w = add_loop edges sz (i + 1) ?w3"
    using i Suc.prems(3,6) c(1,2) src by (subst add_loop.simps) (simp add: Let_def)
  have "\<exists>w'. add_loop edges sz (i + 1) ?w3 = (Ret True, w') \<and> ring_inv w' \<and> waits w' = [] \<and>
           \<not> halt (region w') \<and>
           pending w' = pending ?w3 @ drop (i + 1) (sz # take (unat sz) edges) \<and>
           sem_value w' SEM_MUTEX = sem_value ?w3 SEM_MUTEX"
  proof (rule Suc.hyps(1))
    show "n = unat sz + 1 - (i + 1)" using Suc.hyps(2) by simp
    show "ring_inv ?w3" by (rule c(3))
    show "waits ?w3 = []" by (rule c(5))
    show "\<not> halt (region ?w3)" using c(6) Suc.prems(3) by simp
    show "i + 1 \<le> unat sz + 1" using i by simp
    show "unat sz \<le> length edges" by (rule Suc.prems(5))
    show "unat sz + 1 < 2 ^ 31" by (rule Suc.prems(6))
    show "unat sz + 1 - (i + 1) \<le> sem_value ?w3 SEM_FREE"
      using c(7) Suc.prems(7) by simp
  qed
  moreover have "(sz # take (unat sz) edges) ! i = v"
    using i unfolding v_def by (cases i) simp_all
  then have "[v] @ drop (i + 1) (sz # take (unat sz) edges) = drop i (sz # take (unat sz) edges)"
    using i Suc.prems(5) by (simp add: Cons_nth_drop_Suc[symmetric] del: drop_Suc_Cons)
  ultimately show ?case
    using step c(4,8) by (metis append_assoc)
qed

lemma read_sequence_queue:
  assumes "ring_inv w" "waits w = []" "n \<le> sem_value w SEM_USED"
  shows "\<exists>w'. read_sequence n w = (Ret (take n (pending w)), w') \<and> ring_inv w' \<and>
           pending w' = drop n (pending w) \<and> waits w' = [] \<and>
           halt (region w') = halt (region w) \<and>
           sem_value w' SEM_USED = sem_value w SEM_USED - n \<and>
           sem_value w' SEM_MUTEX = sem_value w SEM_MUTEX"
  using assms
proof (induction n arbitrary: w)
  case 0
  then show ?case by simp
next
  case (Suc n)
  then have u: "0 < sem_value w SEM_USED" by simp
  obtain w1 where r: "read_buffer w = (Ret (hd (pending w)), w1)" "ring_inv w1"
    "pending w1 = tl (pending w)" "waits w1 = []" "halt (region w1) = halt (region w)"
    "sem_value w1 SEM_USED = sem_value w SEM_USED - 1"
    "sem_value w1 SEM_MUTEX = sem_value w SEM_MUTEX"
    using read_cycle[OF Suc.prems(1,2) u] by blast
  have "n \<le> sem_value w1 SEM_USED" using r(6) Suc.prems(3) by simp
  from Suc.IH[OF r(2) r(4) this] obtain w2 where
    s: "read_sequence n w1 = (Ret (take n (pending w1)), w2)" "ring_inv w2"
    "pending w2 = drop n (pending w1)" "waits w2 = []" "halt (region w2) = halt (region w1)"
    "sem_value w2 SEM_USED = sem_value w1 SEM_USED - n"
    "sem_value w2 SEM_MUTEX = sem_value w1 SEM_MUTEX"
    by blast
  have ne: "pending w \<noteq> []" using u by (simp add: pending_def)
  have "hd (pending w) # take n (tl (pending w)) = take (Suc n) (pending w)"
    using ne by (cases "pending w") simp_all
  moreover have "drop n (tl (pending w)) = drop (Suc n) (pending w)"
    by (simp add: drop_Suc)
  ultimately show ?case
    using r s by simp
qed

lemma mutex_irrelevant:
  "ring_inv (w\<lparr>sem_value := (sem_value w)(SEM_MUTEX := m), trace := t\<rparr>) = ring_inv w"
  "pending (w\<lparr>sem_value := (sem_value w)(SEM_MUTEX := m), trace := t\<rparr>) = pending w"
  by (simp_all add: ring_inv_def well_formed_def pending_def)

lemma add_solution_queue:
  assumes "ring_inv w" "waits w = []" "\<not> halt (region w)" "0 < sem_value w SEM_MUTEX"
    and "unat sz \<le> length edges" "unat sz < sem_value w SEM_FREE"
  shows "\<exists>w'. add_solution edges sz w = (Ret True, w') \<and> ring_inv w' \<and> waits w' = [] \<and>
           \<not> halt (region w') \<and> pending w' = pending w @ sz # take (unat sz) edges \<and>
           sem_value w' SEM_MUTEX = sem_value w SEM_MUTEX"
proof -
  let ?w1 = "w\<lparr>sem_value := (sem_value w)(SEM_MUTEX := sem_value w SEM_MUTEX - 1),
                      trace := trace w @ [Wait SEM_MUTEX]\<rparr>"
  have m: "sem_wait SEM_MUTEX w = (Ret 0, ?w1)"
    using assms(2,4) by (rule sem_wait_quiet)
  have "sem_value w SEM_FREE \<le> MAX_DATA"
    using assms(1) by (simp add: ring_inv_def)
  then have small: "unat sz + 1 < 2 ^ 31"
    using assms(5,6) by (simp add: MAX_DATA_def)
  have "\<exists>w'. add_loop edges sz 0 ?w1 = (Ret True, w') \<and> ring_inv w' \<and> waits w' = [] \<and>
           \<not> halt (region w') \<and>
           pending w' = pending ?w1 @ drop 0 (sz # take (unat sz) edges) \<and>
           sem_value w' SEM_MUTEX = sem_value ?w1 SEM_MUTEX"
    using assms small by (intro add_loop_queue) (simp_all add: mutex_irrelevant)
  then obtain w2 where l: "add_loop edges sz 0 ?w1 = (Ret True, w2)" "ring_inv w2" "waits w2 = []"
    "\<not> halt (region w2)" "pending w2 = pending w @ sz # take (unat sz) edges"
    "sem_value w2 SEM_MUTEX = sem_value w SEM_MUTEX - 1"
    by (auto simp: mutex_irrelevant)
  have "add_solution edges sz w = (Ret True, sem_post SEM_MUTEX w2)"
    using l(1) by (simp add: add_solution_def m)
  moreover have "ring_inv (sem_post SEM_MUTEX w2)" "pending (sem_post SEM_MUTEX w2) = pending w2"
    using l(2) by (simp_all add: sem_post_def mutex_irrelevant)
  ultimately show ?thesis
    using l assms(4) by (simp add: sem_post_def)
qed

lemma served_state:
  "served = \<lparr>region = zero_region,
             sem_value = (\<lambda>n. 0)(SEM_FREE := MAX_DATA, SEM_USED := 0, SEM_MUTEX := 1),
             shm_named = True,
             sem_named = (\<lambda>n. False)(SEM_FREE := True, SEM_USED := True, SEM_MUTEX := True),
             fd_open = True, mapped = True,
             sem_opened = (\<lambda>n. False)(SEM_FREE := True, SEM_USED := True, SEM_MUTEX := True),
             errno = ENONE, quit = False, waits = [], failing = {}, trace = []\<rparr>"
  by (simp add: served_def boot_def open_cbuff_def open_shm_def shm_open_def ftruncate_def
      mmap_def sem_open_excl_def logged_def zero_region_def)

lemma served_ring_inv: "ring_inv served"
  by (simp add: served_state ring_inv_def well_formed_def zero_region_def in_bounds_def
      slot_def MAX_DATA_def)

section \<open>Round trip of one frame\<close>

text \<open>
  C1. On a well-formed ring with no halt, a free mutex, no scheduled interruption and
  more than \<open>size\<close> free slots (so that the producer alone does not wait),
  \<open>add_solution\<close> with the \<open>size\<close> payload words of \<open>edges\<close> succeeds and appends the
  header word \<open>size\<close> and the payload words, in their order, to the unconsumed words.
  Calls of \<open>read_buffer\<close> in a row then return the words that were unconsumed before,
  followed by the header \<open>size\<close> and the payload in identical order; on a buffer with
  nothing unconsumed, \<open>1 + size\<close> reads return the header and then the payload. The ring
  is left as the statement needs it, so it applies again to the next frame.
\<close>

theorem single_producer_round_trip:
  assumes "ring_inv w" "waits w = []" "\<not> halt (region w)" "0 < sem_value w SEM_MUTEX"
    and "unat sz \<le> length edges" "unat sz < sem_value w SEM_FREE"
  shows "\<exists>w1 w2. add_solution edges sz w = (Ret True, w1) \<and>
           pending w1 = pending w @ sz # take (unat sz) edges \<and>
           read_sequence (length (pending w) + (1 + unat sz)) w1 =
             (Ret (pending w @ sz # take (unat sz) edges), w2) \<and>
           ring_inv w2 \<and> pending w2 = [] \<and> waits w2 = [] \<and> \<not> halt (region w2) \<and>
           sem_value w2 SEM_MUTEX = sem_value w SEM_MUTEX"
proof -
  obtain w1 where a: "add_solution edges sz w = (Ret True, w1)" "ring_inv w1" "waits w1 = []"
    "\<not> halt (region w1)" "pending w1 = pending w @ sz # take (unat sz) edges"
    "sem_value w1 SEM_MUTEX = sem_value w SEM_MUTEX"
    using add_solution_queue[OF assms] by auto
  let ?n = "length (pending w) + (1 + unat sz)"
  have n: "length (pending w1) = ?n"
    using a(5) assms(5) by simp
  then have "?n \<le> sem_value w1 SEM_USED"
    by (simp add: pending_def)
  from read_sequence_queue[OF a(2,3) this] obtain w2 where
    r: "read_sequence ?n w1 = (Ret (take ?n (pending w1)), w2)"
    "ring_inv w2" "pending w2 = drop ?n (pending w1)" "waits w2 = []"
    "halt (region w2) = halt (region w1)"
    "sem_value w2 SEM_MUTEX = sem_value w1 SEM_MUTEX"
    by blast
  have "take ?n (pending w1) = pending w1" "drop ?n (pending w1) = []"
    using n by simp_all
  then show ?thesis
    using a r by auto
qed

theorem single_producer_round_trip_witness:
  "\<exists>w1 w2. add_solution [10, 20, 30, 5] 4 served = (Ret True, w1) \<and>
     read_sequence 5 w1 = (Ret [4, 10, 20, 30, 5], w2) \<and> pending w2 = []"
proof -
  have h: "waits served = []" "\<not> halt (region served)" "0 < sem_value served SEM_MUTEX"
    "unat (4 :: size_t) \<le> length [10, 20, 30, 5 :: long]"
    "unat (4 :: size_t) < sem_value served SEM_FREE"
    by (simp_all add: served_state zero_region_def MAX_DATA_def)
  have e: "pending served = []"
    by (simp add: pending_def served_state)
  have n: "length ([] :: long list) + (1 + unat (4 :: size_t)) = 5"
    "take (unat (4 :: size_t)) [10, 20, 30, 5 :: long] = [10, 20, 30, 5]"
    by simp_all
  from single_producer_round_trip[OF served_ring_inv h]
  show ?thesis unfolding e n by auto
qed

section \<open>What one call of add\_solution transacts\<close>


lemma cycles_step:
  assumes "i < j"
  shows "cycles p ws i j = cycle (p mod MAX_DATA) (ws ! i) @ cycles ((p + 1) mod MAX_DATA) ws (Suc i) j"
proof -
  have c1: "[i..<j] = i # [Suc i..<j]" using assms by (simp add: upt_conv_Cons)
  have eq: "cycle ((p + (k - i)) mod MAX_DATA) (ws ! k) =
      cycle (((p + 1) mod MAX_DATA + (k - Suc i)) mod MAX_DATA) (ws ! k)"
    if "k \<in> set [Suc i..<j]" for k
  proof -
    have "((p + 1) mod MAX_DATA + (k - Suc i)) mod MAX_DATA = ((p + 1) + (k - Suc i)) mod MAX_DATA"
      by (rule mod_add_left_eq)
    also have "(p + 1) + (k - Suc i) = p + (k - i)" using that by auto
    finally show ?thesis by simp
  qed
  have m: "map (\<lambda>k. cycle ((p + (k - i)) mod MAX_DATA) (ws ! k)) [Suc i..<j] =
      map (\<lambda>k. cycle (((p + 1) mod MAX_DATA + (k - Suc i)) mod MAX_DATA) (ws ! k)) [Suc i..<j]"
    by (rule map_cong[OF refl eq])
  have "cycles p ws i j = cycle ((p + (i - i)) mod MAX_DATA) (ws ! i) @
      concat (map (\<lambda>k. cycle ((p + (k - i)) mod MAX_DATA) (ws ! k)) [Suc i..<j])"
    unfolding cycles_def c1 by (simp only: list.map concat.simps)
  also have "\<dots> = cycle (p mod MAX_DATA) (ws ! i) @ cycles ((p + 1) mod MAX_DATA) ws (Suc i) j"
    unfolding m cycles_def by simp
  finally show ?thesis .
qed

lemma cycles_empty: "j \<le> i \<Longrightarrow> cycles p ws i j = []"
  by (simp add: cycles_def)



lemma cycles_word_cycles:
  assumes "n \<le> length ws"
  shows "cycles p ws 0 n = word_cycles p (take n ws)"
proof -
  have m: "map (\<lambda>k. cycle ((p + (k - 0)) mod MAX_DATA) (ws ! k)) [0..<n] =
        map (\<lambda>k. [Wait SEM_FREE, Store ((p + k) mod MAX_DATA) (take n ws ! k), Post SEM_USED]) [0..<n]"
    by (rule map_cong[OF refl]) (simp add: cycle_def)
  have len: "length (take n ws) = n"
    using assms by simp
  show ?thesis
    unfolding cycles_def word_cycles_def len m by (rule refl)
qed





section \<open>Halt during a frame write\<close>

lemma sem_wait_proceeds:
  assumes "waits w = e # es" "e = Proceed \<or> e = HaltSet" "0 < sem_value w n"
  shows "sem_wait n w =
     (Ret 0, w\<lparr>waits := es,
              region := (region w)\<lparr>halt := halt (region w) \<or> e = HaltSet\<rparr>,
              sem_value := (sem_value w)(n := sem_value w n - 1),
              trace := trace w @ [Wait n]\<rparr>)"
  using assms by (auto simp: sem_wait_def acquire_def Let_def)

lemma add_loop_halted:
  assumes "halt (region w)" "i \<le> unat sz"
  shows "add_loop edges sz i w = (Ret False, sem_post SEM_MUTEX w)"
  using assms by (subst add_loop.simps) simp

lemma add_loop_iteration:
  assumes i: "i \<le> unat sz" "i \<le> length edges" "i + 1 < 2 ^ 31"
    and nh: "\<not> halt (region w)"
    and ev: "waits w = e # es" "e = Proceed \<or> e = HaltSet"
    and f: "0 < sem_value w SEM_FREE"
    and wb: "in_bounds (write_idx (region w))"
  shows "\<exists>w3. add_loop edges sz i w = add_loop edges sz (i + 1) w3 \<and>
           trace w3 = trace w @ cycle (slot (write_idx (region w))) ((sz # edges) ! i) \<and>
           waits w3 = es \<and> halt (region w3) = (e = HaltSet) \<and>
           in_bounds (write_idx (region w3)) \<and>
           slot (write_idx (region w3)) = (slot (write_idx (region w)) + 1) mod MAX_DATA \<and>
           sem_value w3 SEM_FREE = sem_value w SEM_FREE - 1 \<and>
           sem_value w3 SEM_MUTEX = sem_value w SEM_MUTEX"
proof -
  let ?v = "(sz # edges) ! i"
  let ?p = "slot (write_idx (region w))"
  let ?w1 = "w\<lparr>waits := es,
              region := (region w)\<lparr>halt := halt (region w) \<or> e = HaltSet\<rparr>,
              sem_value := (sem_value w)(SEM_FREE := sem_value w SEM_FREE - 1),
              trace := trace w @ [Wait SEM_FREE]\<rparr>"
  let ?w2 = "?w1\<lparr>region := (region ?w1)\<lparr>data := (data (region ?w1))[?p := ?v]\<rparr>,
                    trace := trace ?w1 @ [Store ?p ?v]\<rparr>"
  let ?w3 = "sem_post SEM_USED (advance_write ?w2)"
  have sw: "sem_wait SEM_FREE w = (Ret 0, ?w1)"
    by (rule sem_wait_proceeds[OF ev f])
  have src: "(if i = 0 then Some sz else edge_at edges (i - 1)) = Some ?v"
    using i(2) by (cases i) (simp_all add: edge_at_def)
  have st: "store_data ?v ?w1 = Some ?w2"
    using wb by (simp add: store_data_def Let_def)
  have step: "add_loop edges sz i w = add_loop edges sz (i + 1) ?w3"
    using i nh sw src st by (subst add_loop.simps) (simp add: Let_def)
  have i3: "write_idx (region ?w3) = long_rem (write_idx (region w) + 1) 400"
    by (simp add: sem_post_def advance_write_def Let_def)
  have "trace ?w3 = trace w @ cycle ?p ?v" "waits ?w3 = es" "halt (region ?w3) = (e = HaltSet)"
    "sem_value ?w3 SEM_FREE = sem_value w SEM_FREE - 1"
    "sem_value ?w3 SEM_MUTEX = sem_value w SEM_MUTEX"
    using nh by (simp_all add: sem_post_def advance_write_def Let_def cycle_def)
  then show ?thesis
    using step cursor_advance[OF wb] i3 by (intro exI[of _ ?w3]) simp
qed

lemma add_loop_stops:
  assumes "waits w = replicate k Proceed @ HaltSet # rest"
    and "\<not> halt (region w)" "i + k < unat sz" "unat sz \<le> length edges" "unat sz + 1 < 2 ^ 31"
    and "k < sem_value w SEM_FREE" "in_bounds (write_idx (region w))"
  shows "\<exists>w'. add_loop edges sz i w = (Ret False, w') \<and>
           trace w' = trace w @ cycles (slot (write_idx (region w))) (sz # edges) i (i + k + 1) @
                      [Post SEM_MUTEX] \<and>
           waits w' = rest \<and> halt (region w') \<and>
           sem_value w' SEM_MUTEX = sem_value w SEM_MUTEX + 1"
  using assms
proof (induction k arbitrary: i w)
  case 0
  let ?p = "slot (write_idx (region w))"
  from 0 have ev: "waits w = HaltSet # rest" "HaltSet = Proceed \<or> HaltSet = HaltSet" by simp_all
  from add_loop_iteration[OF _ _ _ "0.prems"(2) ev _ "0.prems"(7), of i sz edges] "0.prems"
  obtain w3 where w3: "add_loop edges sz i w = add_loop edges sz (i + 1) w3"
    "trace w3 = trace w @ cycle ?p ((sz # edges) ! i)" "waits w3 = rest" "halt (region w3)"
    "sem_value w3 SEM_MUTEX = sem_value w SEM_MUTEX"
    by auto
  have "add_loop edges sz (i + 1) w3 = (Ret False, sem_post SEM_MUTEX w3)"
    using w3(4) "0.prems"(3) by (intro add_loop_halted) simp_all
  moreover have "cycles ?p (sz # edges) i (i + 0 + 1) = cycle ?p ((sz # edges) ! i)"
    using slot_less[OF "0.prems"(7)] by (simp add: cycles_step cycles_empty)
  ultimately show ?case
    using w3 by (simp add: sem_post_def)
next
  case (Suc k)
  let ?p = "slot (write_idx (region w))"
  from Suc.prems have ev: "waits w = Proceed # (replicate k Proceed @ HaltSet # rest)"
    "Proceed = Proceed \<or> Proceed = HaltSet" by simp_all
  from add_loop_iteration[OF _ _ _ Suc.prems(2) ev _ Suc.prems(7), of i sz edges] Suc.prems
  obtain w3 where w3: "add_loop edges sz i w = add_loop edges sz (i + 1) w3"
    "trace w3 = trace w @ cycle ?p ((sz # edges) ! i)"
    "waits w3 = replicate k Proceed @ HaltSet # rest" "\<not> halt (region w3)"
    "in_bounds (write_idx (region w3))"
    "slot (write_idx (region w3)) = (?p + 1) mod MAX_DATA"
    "sem_value w3 SEM_FREE = sem_value w SEM_FREE - 1"
    "sem_value w3 SEM_MUTEX = sem_value w SEM_MUTEX"
    by auto
  have "\<exists>w'. add_loop edges sz (i + 1) w3 = (Ret False, w') \<and>
           trace w' = trace w3 @ cycles (slot (write_idx (region w3))) (sz # edges) (i + 1) (i + 1 + k + 1) @
                      [Post SEM_MUTEX] \<and>
           waits w' = rest \<and> halt (region w') \<and>
           sem_value w' SEM_MUTEX = sem_value w3 SEM_MUTEX + 1"
    using w3 Suc.prems by (intro Suc.IH) simp_all
  moreover have "cycles ?p (sz # edges) i (i + Suc k + 1) =
      cycle ?p ((sz # edges) ! i) @ cycles ((?p + 1) mod MAX_DATA) (sz # edges) (i + 1) (i + 1 + k + 1)"
    using slot_less[OF Suc.prems(7)] cycles_step[of i "i + Suc k + 1" ?p "sz # edges"] by simp
  ultimately show ?case
    using w3 by auto
qed


text \<open>
  C4, as amended. \<open>add_solution\<close> checks \<open>halt\<close> before each of the \<open>1 + size\<close> words.
  From any counter \<open>i \<le> size\<close>, a set flag makes the loop post the mutex and return
  \<open>false\<close> at once, with nothing else done. A call entered with the flag set writes
  nothing. A call whose first \<open>j \<le> size\<close> waits proceed (the wait for the mutex
  being the first) and during whose next wait the flag is set returns \<open>false\<close> having
  written exactly the first \<open>j\<close> words of the frame, the header being the first word.
  The result \<open>false\<close> is the one a failed \<open>sem_wait\<close> gives as well.
\<close>

theorem halt_abort:
  "(halt (region v) \<and> i \<le> unat sz \<longrightarrow>
      add_loop edges sz i v = (Ret False, sem_post SEM_MUTEX v)) \<and>
   (halt (region w) \<and> waits w = [] \<and> 0 < sem_value w SEM_MUTEX \<longrightarrow>
      add_solution edges sz w =
        (Ret False, w\<lparr>trace := trace w @ [Wait SEM_MUTEX, Post SEM_MUTEX]\<rparr>)) \<and>
   (\<not> halt (region w) \<and> waits w = replicate j Proceed @ HaltSet # rest \<and>
    j \<le> unat sz \<and> unat sz \<le> length edges \<and> unat sz + 1 < 2 ^ 31 \<and>
    0 < sem_value w SEM_MUTEX \<and> j \<le> sem_value w SEM_FREE \<and>
    in_bounds (write_idx (region w)) \<longrightarrow>
      (\<exists>w'. add_solution edges sz w = (Ret False, w') \<and>
         trace w' = trace w @ [Wait SEM_MUTEX] @
           word_cycles (slot (write_idx (region w))) (take j (sz # edges)) @ [Post SEM_MUTEX] \<and>
         halt (region w') \<and> waits w' = rest \<and>
         sem_value w' SEM_MUTEX = sem_value w SEM_MUTEX))"
proof (intro conjI impI)
  assume "halt (region v) \<and> i \<le> unat sz"
  then show "add_loop edges sz i v = (Ret False, sem_post SEM_MUTEX v)"
    by (simp add: add_loop_halted)
next
  assume a: "halt (region w) \<and> waits w = [] \<and> 0 < sem_value w SEM_MUTEX"
  let ?w1 = "w\<lparr>sem_value := (sem_value w)(SEM_MUTEX := sem_value w SEM_MUTEX - 1),
                      trace := trace w @ [Wait SEM_MUTEX]\<rparr>"
  have "sem_wait SEM_MUTEX w = (Ret 0, ?w1)"
    using a by (intro sem_wait_quiet) simp_all
  moreover have "add_loop edges sz 0 ?w1 = (Ret False, sem_post SEM_MUTEX ?w1)"
    using a by (intro add_loop_halted) simp_all
  moreover have "sem_post SEM_MUTEX ?w1 = w\<lparr>trace := trace w @ [Wait SEM_MUTEX, Post SEM_MUTEX]\<rparr>"
    using a by (simp add: sem_post_def)
  ultimately show "add_solution edges sz w =
        (Ret False, w\<lparr>trace := trace w @ [Wait SEM_MUTEX, Post SEM_MUTEX]\<rparr>)"
    by (simp add: add_solution_def)
next
  assume a: "\<not> halt (region w) \<and> waits w = replicate j Proceed @ HaltSet # rest \<and>
    j \<le> unat sz \<and> unat sz \<le> length edges \<and> unat sz + 1 < 2 ^ 31 \<and>
    0 < sem_value w SEM_MUTEX \<and> j \<le> sem_value w SEM_FREE \<and>
    in_bounds (write_idx (region w))"
  let ?p = "slot (write_idx (region w))"
  show "\<exists>w'. add_solution edges sz w = (Ret False, w') \<and>
         trace w' = trace w @ [Wait SEM_MUTEX] @
           word_cycles ?p (take j (sz # edges)) @ [Post SEM_MUTEX] \<and>
         halt (region w') \<and> waits w' = rest \<and>
         sem_value w' SEM_MUTEX = sem_value w SEM_MUTEX"
  proof (cases j)
    case 0
    let ?w1 = "w\<lparr>waits := rest,
              region := (region w)\<lparr>halt := halt (region w) \<or> HaltSet = HaltSet\<rparr>,
              sem_value := (sem_value w)(SEM_MUTEX := sem_value w SEM_MUTEX - 1),
              trace := trace w @ [Wait SEM_MUTEX]\<rparr>"
    have "sem_wait SEM_MUTEX w = (Ret 0, ?w1)"
      using a 0 by (intro sem_wait_proceeds) simp_all
    moreover have "add_loop edges sz 0 ?w1 = (Ret False, sem_post SEM_MUTEX ?w1)"
      by (intro add_loop_halted) simp_all
    ultimately show ?thesis
      using a 0 by (simp add: add_solution_def sem_post_def word_cycles_def)
  next
    case (Suc k)
    let ?w1 = "w\<lparr>waits := replicate k Proceed @ HaltSet # rest,
              region := (region w)\<lparr>halt := halt (region w) \<or> Proceed = HaltSet\<rparr>,
              sem_value := (sem_value w)(SEM_MUTEX := sem_value w SEM_MUTEX - 1),
              trace := trace w @ [Wait SEM_MUTEX]\<rparr>"
    have sw: "sem_wait SEM_MUTEX w = (Ret 0, ?w1)"
      using a Suc by (intro sem_wait_proceeds) simp_all
    have "\<exists>w'. add_loop edges sz 0 ?w1 = (Ret False, w') \<and>
           trace w' = trace ?w1 @ cycles (slot (write_idx (region ?w1))) (sz # edges) 0 (0 + k + 1) @
                      [Post SEM_MUTEX] \<and>
           waits w' = rest \<and> halt (region w') \<and>
           sem_value w' SEM_MUTEX = sem_value ?w1 SEM_MUTEX + 1"
      using a Suc by (intro add_loop_stops) simp_all
    then obtain w' where w': "add_loop edges sz 0 ?w1 = (Ret False, w')"
      "trace w' = trace w @ [Wait SEM_MUTEX] @ cycles ?p (sz # edges) 0 (k + 1) @ [Post SEM_MUTEX]"
      "waits w' = rest" "halt (region w')"
      "sem_value w' SEM_MUTEX = sem_value w SEM_MUTEX - 1 + 1"
      by auto
    have "cycles ?p (sz # edges) 0 (k + 1) = word_cycles ?p (take (k + 1) (sz # edges))"
      using a Suc by (intro cycles_word_cycles) simp
    then show ?thesis
      using sw w' a Suc by (simp add: add_solution_def)
  qed
qed

text \<open>
  C4 as stated fails: the result of a halted call is not distinguished from the result
  of a call whose \<open>sem_wait\<close> failed.
\<close>

theorem halt_abort_indistinct:
  "fst (add_solution [] 0 (set_halt served)) = Ret False \<and>
   fst (add_solution [] 0 (served\<lparr>waits := [Einval]\<rparr>)) = Ret False"
  by (simp add: add_solution_def sem_wait_def acquire_def wait_fails_def set_halt_def
      served_state add_loop.simps)

theorem halt_abort_witness:
  "add_loop [10, 20, 30, 5] 4 3 (set_halt served) = (Ret False, sem_post SEM_MUTEX (set_halt served)) \<and>
   add_solution [10, 20, 30, 5] 4 (set_halt served) =
     (Ret False, (set_halt served)\<lparr>trace := [Wait SEM_MUTEX, Post SEM_MUTEX]\<rparr>) \<and>
   (\<exists>w'. add_solution [10, 20, 30, 5] 4 (served\<lparr>waits := [Proceed, Proceed, HaltSet]\<rparr>) = (Ret False, w') \<and>
      trace w' = [Wait SEM_MUTEX, Wait SEM_FREE, Store 0 4, Post SEM_USED,
                  Wait SEM_FREE, Store 1 10, Post SEM_USED, Post SEM_MUTEX] \<and>
      halt (region w') \<and> waits w' = [])"
proof -
  have s: "halt (region (set_halt served))" "waits (set_halt served) = []"
    "0 < sem_value (set_halt served) SEM_MUTEX" "trace (set_halt served) = []"
    by (simp_all add: set_halt_def served_state)
  let ?w = "served\<lparr>waits := [Proceed, Proceed, HaltSet]\<rparr>"
  have r: "replicate 2 Proceed = [Proceed, Proceed]"
    by (simp add: numeral_2_eq_2)
  have h: "\<not> halt (region ?w)" "waits ?w = replicate 2 Proceed @ HaltSet # []"
    "2 \<le> unat (4::size_t)" "unat (4::size_t) \<le> length [10, 20, 30, 5 :: long]"
    "unat (4::size_t) + 1 < 2 ^ 31" "0 < sem_value ?w SEM_MUTEX" "2 \<le> sem_value ?w SEM_FREE"
    "in_bounds (write_idx (region ?w))" "trace ?w = []" "slot (write_idx (region ?w)) = 0"
    by (simp_all add: served_state zero_region_def MAX_DATA_def in_bounds_def slot_def r)
  have c: "word_cycles 0 (take 2 [4, 10, 20, 30, 5]) =
      [Wait SEM_FREE, Store 0 4, Post SEM_USED, Wait SEM_FREE, Store 1 10, Post SEM_USED]"
    by (simp add: word_cycles_def MAX_DATA_def upt_rec)
  have three: "(3::nat) \<le> unat (4::size_t)" by simp
  from halt_abort[of "set_halt served" 3 4 "[10, 20, 30, 5]" "set_halt served" 2 "[]"]
    s three
  have a: "add_loop [10, 20, 30, 5] 4 3 (set_halt served) = (Ret False, sem_post SEM_MUTEX (set_halt served))"
    and b: "add_solution [10, 20, 30, 5] 4 (set_halt served) =
     (Ret False, (set_halt served)\<lparr>trace := [Wait SEM_MUTEX, Post SEM_MUTEX]\<rparr>)"
    by simp_all
  from halt_abort[of ?w 0 4 "[10, 20, 30, 5]" ?w 2 "[]"] h c
  have "\<exists>w'. add_solution [10, 20, 30, 5] 4 ?w = (Ret False, w') \<and>
      trace w' = [Wait SEM_MUTEX, Wait SEM_FREE, Store 0 4, Post SEM_USED,
                  Wait SEM_FREE, Store 1 10, Post SEM_USED, Post SEM_MUTEX] \<and>
      halt (region w') \<and> waits w' = []"
    by auto
  with a b show ?thesis by blast
qed



section \<open>The semaphore counts on the error paths\<close>

text \<open>
  C3. The counts are as the claim says after \<open>open_cbuff\<close>, and the write and read
  cycles keep them so (\<open>write_cycle\<close>, \<open>read_cycle\<close> above). The error paths do not:
  \<open>read_buffer\<close> posts \<open>used\<close> after its wait on \<open>used\<close> failed, so an interrupted
  read of the empty buffer leaves \<open>used = 1\<close> and \<open>used + free = 401\<close> with no word
  stored; \<open>add_solution\<close> posts \<open>mutex\<close> after its wait on \<open>mutex\<close> failed, which
  raises a free mutex to 2. The third path, a failed wait on \<open>free\<close>, posts only the
  mutex it holds and keeps the counts.
\<close>

theorem failed_wait_changes_counts:
  "ring_inv served \<and> sem_value served SEM_USED = 0 \<and> sem_value served SEM_MUTEX = 1 \<and>
   (case read_buffer (served\<lparr>waits := [Sigint]\<rparr>) of
      (r, w') \<Rightarrow> r = Ret (- 1) \<and> region w' = region served \<and>
        sem_value w' SEM_USED = 1 \<and> sem_value w' SEM_FREE = 400 \<and> \<not> ring_inv w') \<and>
   (case add_solution [] 0 (served\<lparr>waits := [Einval]\<rparr>) of
      (r, w') \<Rightarrow> r = Ret False \<and> sem_value w' SEM_MUTEX = 2) \<and>
   (case add_solution [] 0 (served\<lparr>waits := [Proceed, Einval]\<rparr>) of
      (r, w') \<Rightarrow> r = Ret False \<and> sem_value w' SEM_MUTEX = 1 \<and>
        sem_value w' SEM_USED = 0 \<and> sem_value w' SEM_FREE = 400)"
  by (simp add: served_ring_inv)
    (simp add: served_state read_buffer_def add_solution_def sem_wait_def acquire_def
      wait_fails_def handle_signal_def sem_post_def ring_inv_def MAX_DATA_def add_loop.simps)

section \<open>Creating the buffer\<close>

text \<open>
  C5. When opening the third semaphore fails (refused by the system, or its name left
  over), \<open>open_cbuff(true)\<close> closes and unlinks \<open>free\<close> twice and \<open>used\<close> never: the
  \<open>used\<close> semaphore stays open in the process and stays in the namespace, and the next
  \<open>open_cbuff(true)\<close> fails on that name. When opening the second one fails, everything
  created is released.
\<close>

theorem mutex_open_failure_leaks_used:
  "(case open_cbuff True (boot\<lparr>failing := {SemOpen SEM_MUTEX}\<rparr>) of
      (r, w') \<Rightarrow> r = None \<and> sem_named w' SEM_USED \<and> sem_opened w' SEM_USED \<and>
        \<not> sem_named w' SEM_FREE \<and> \<not> sem_opened w' SEM_FREE \<and>
        \<not> shm_named w' \<and> \<not> fd_open w' \<and> \<not> mapped w' \<and>
        trace w' = [Sys ShmOpen True, Sys Ftruncate True, Sys Mmap True,
                    Sys (SemOpen SEM_FREE) True, Sys (SemOpen SEM_USED) True,
                    Sys (SemOpen SEM_MUTEX) False,
                    Sys (SemClose SEM_FREE) True, Sys (SemUnlink SEM_FREE) True,
                    Sys (SemClose SEM_FREE) False, Sys (SemUnlink SEM_FREE) False,
                    Sys Munmap True, Sys Close True, Sys ShmUnlink True]) \<and>
   (case open_cbuff True (boot\<lparr>sem_named := (\<lambda>n. n = SEM_MUTEX)\<rparr>) of
      (r, w') \<Rightarrow> r = None \<and> sem_named w' SEM_USED \<and> sem_opened w' SEM_USED) \<and>
   fst (open_cbuff True
          ((snd (open_cbuff True (boot\<lparr>failing := {SemOpen SEM_MUTEX}\<rparr>)))\<lparr>failing := {}\<rparr>)) = None \<and>
   (case open_cbuff True (boot\<lparr>failing := {SemOpen SEM_USED}\<rparr>) of
      (r, w') \<Rightarrow> r = None \<and> \<not> sem_named w' SEM_FREE \<and> \<not> sem_opened w' SEM_FREE \<and>
        \<not> sem_named w' SEM_USED \<and> \<not> shm_named w' \<and> \<not> fd_open w' \<and> \<not> mapped w')"
  by (simp add: boot_def open_cbuff_def open_shm_def shm_open_def ftruncate_def mmap_def
      sem_open_excl_def sem_close_def sem_unlink_def close_shm_def munmap_def close_fd_def
      shm_unlink_def logged_def in_order_def discard_def Let_def)

text \<open>
  C6. \<open>shm_open\<close> is called without \<open>O_EXCL\<close>: on a region that exists \<open>open_shm(true)\<close>
  succeeds, keeps its data and resets its cursors, and \<open>open_cbuff(true)\<close> succeeds as
  long as no semaphore name exists. The semaphores are opened with \<open>O_EXCL\<close>, so a
  semaphore that exists makes the call fail; the rollback of that failure then unlinks
  the region it did not create.
\<close>

theorem create_on_existing_region:
  "shm_named stale \<and>
   (case open_shm True stale of
      (r, w') \<Rightarrow> r = Some () \<and> data (region w') = data (region stale) \<and>
        write_idx (region w') = 0 \<and> read_idx (region w') = 0) \<and>
   fst (open_cbuff True stale) = Some () \<and>
   fst (open_cbuff True (boot\<lparr>sem_named := (\<lambda>n. n = SEM_FREE)\<rparr>)) = None \<and>
   (case open_cbuff True (stale\<lparr>sem_named := (\<lambda>n. True)\<rparr>) of
      (r, w') \<Rightarrow> r = None \<and> \<not> shm_named w' \<and>
        write_idx (region w') = 0 \<and> read_idx (region w') = 0)"
  by (simp add: stale_def boot_def open_cbuff_def open_shm_def shm_open_def ftruncate_def mmap_def
      sem_open_excl_def sem_close_def sem_unlink_def close_shm_def munmap_def close_fd_def
      shm_unlink_def logged_def in_order_def discard_def Let_def zero_region_def)


section \<open>Destroying the buffer\<close>

lemma resource_call_logged:
  "trace (snd (munmap w)) = trace w @ [Sys Munmap (fst (munmap w))]"
  "trace (snd (close_fd w)) = trace w @ [Sys Close (fst (close_fd w))]"
  "trace (snd (shm_unlink w)) = trace w @ [Sys ShmUnlink (fst (shm_unlink w))]"
  "trace (snd (sem_close n w)) = trace w @ [Sys (SemClose n) (fst (sem_close n w))]"
  "trace (snd (sem_unlink n w)) = trace w @ [Sys (SemUnlink n) (fst (sem_unlink n w))]"
  by (simp_all add: munmap_def close_fd_def shm_unlink_def sem_close_def sem_unlink_def
      logged_def)

lemma close_shm_steps:
  "\<exists>ok1 ok2 ok3.
     trace (snd (close_shm server w)) =
       trace w @ [Sys Munmap ok1, Sys Close ok2] @ (if server then [Sys ShmUnlink ok3] else []) \<and>
     fst (close_shm server w) = (ok1 \<and> ok2 \<and> (if server then ok3 else True))"
proof -
  let ?w1 = "snd (munmap w)"
  let ?w2 = "snd (close_fd ?w1)"
  let ?w3 = "snd (shm_unlink ?w2)"
  have "trace (snd (close_shm server w)) =
       trace w @ [Sys Munmap (fst (munmap w)), Sys Close (fst (close_fd ?w1))] @
       (if server then [Sys ShmUnlink (fst (shm_unlink ?w2))] else [])"
    by (simp add: close_shm_def Let_def split_beta resource_call_logged)
  moreover have "fst (close_shm server w) =
      (fst (munmap w) \<and> fst (close_fd ?w1) \<and> (if server then fst (shm_unlink ?w2) else True))"
    by (simp add: close_shm_def Let_def split_beta)
  ultimately show ?thesis by blast
qed

lemma close_cbuff_steps:
  "\<exists>c1 c2 c3 u1 u2 u3 ok1 ok2 ok3.
     trace (snd (close_cbuff server w)) =
       trace w @ (if server then [Post SEM_FREE, Post SEM_USED] else []) @
       [Sys (SemClose SEM_FREE) c1, Sys (SemClose SEM_USED) c2, Sys (SemClose SEM_MUTEX) c3] @
       (if server
        then [Sys (SemUnlink SEM_FREE) u1, Sys (SemUnlink SEM_USED) u2, Sys (SemUnlink SEM_MUTEX) u3]
        else []) @
       [Sys Munmap ok1, Sys Close ok2] @ (if server then [Sys ShmUnlink ok3] else []) \<and>
     fst (close_cbuff server w) = (ok1 \<and> ok2 \<and> (if server then ok3 else True))"
proof -
  let ?w1 = "if server then in_order [sem_post SEM_FREE, sem_post SEM_USED, set_halt] w else w"
  let ?w2 = "in_order [discard (sem_close SEM_FREE), discard (sem_close SEM_USED),
                         discard (sem_close SEM_MUTEX)] ?w1"
  let ?w3 = "if server
                then in_order [discard (sem_unlink SEM_FREE), discard (sem_unlink SEM_USED),
                               discard (sem_unlink SEM_MUTEX)] ?w2
                else ?w2"
  have t1: "trace ?w1 = trace w @ (if server then [Post SEM_FREE, Post SEM_USED] else [])"
    by (simp add: in_order_def sem_post_def set_halt_def)
  have "\<exists>c1 c2 c3. trace ?w2 = trace ?w1 @
      [Sys (SemClose SEM_FREE) c1, Sys (SemClose SEM_USED) c2, Sys (SemClose SEM_MUTEX) c3]"
    by (simp add: in_order_def discard_def resource_call_logged)
  then obtain c1 c2 c3 where t2: "trace ?w2 = trace ?w1 @
      [Sys (SemClose SEM_FREE) c1, Sys (SemClose SEM_USED) c2, Sys (SemClose SEM_MUTEX) c3]"
    by blast
  have "\<exists>u1 u2 u3. trace ?w3 = trace ?w2 @
       (if server
        then [Sys (SemUnlink SEM_FREE) u1, Sys (SemUnlink SEM_USED) u2, Sys (SemUnlink SEM_MUTEX) u3]
        else [])"
    by (simp add: in_order_def discard_def resource_call_logged)
  then obtain u1 u2 u3 where t3: "trace ?w3 = trace ?w2 @
       (if server
        then [Sys (SemUnlink SEM_FREE) u1, Sys (SemUnlink SEM_USED) u2, Sys (SemUnlink SEM_MUTEX) u3]
        else [])"
    by blast
  from close_shm_steps[of server ?w3] obtain ok1 ok2 ok3 where
    t4: "trace (snd (close_shm server ?w3)) =
       trace ?w3 @ [Sys Munmap ok1, Sys Close ok2] @ (if server then [Sys ShmUnlink ok3] else [])"
    and r: "fst (close_shm server ?w3) = (ok1 \<and> ok2 \<and> (if server then ok3 else True))"
    by blast
  have c: "close_cbuff server w = close_shm server ?w3"
    by (simp add: close_cbuff_def Let_def split: prod.splits bool.splits)
  have t: "trace (snd (close_shm server ?w3)) =
       trace w @ (if server then [Post SEM_FREE, Post SEM_USED] else []) @
       [Sys (SemClose SEM_FREE) c1, Sys (SemClose SEM_USED) c2, Sys (SemClose SEM_MUTEX) c3] @
       (if server
        then [Sys (SemUnlink SEM_FREE) u1, Sys (SemUnlink SEM_USED) u2, Sys (SemUnlink SEM_MUTEX) u3]
        else []) @
       [Sys Munmap ok1, Sys Close ok2] @ (if server then [Sys ShmUnlink ok3] else [])"
    unfolding t4 t3 t2 t1 by (simp only: append_assoc)
  show ?thesis
    unfolding c
  proof (intro exI conjI)
    show "trace (snd (close_shm server ?w3)) =
       trace w @ (if server then [Post SEM_FREE, Post SEM_USED] else []) @
       [Sys (SemClose SEM_FREE) c1, Sys (SemClose SEM_USED) c2, Sys (SemClose SEM_MUTEX) c3] @
       (if server
        then [Sys (SemUnlink SEM_FREE) u1, Sys (SemUnlink SEM_USED) u2, Sys (SemUnlink SEM_MUTEX) u3]
        else []) @
       [Sys Munmap ok1, Sys Close ok2] @ (if server then [Sys ShmUnlink ok3] else [])"
      by (rule t)
    show "fst (close_shm server ?w3) = (ok1 \<and> ok2 \<and> (if server then ok3 else True))"
      by (rule r)
  qed
qed




section \<open>One pass of the supervisor over a frame\<close>

lemma shown_simps:
  "shown [] = []"
  "shown (x # xs) = (if x = - 1 then [] else x # shown xs)"
  by (simp_all add: shown_def)

lemma consumed_simps:
  "consumed [] = 0"
  "consumed (x # xs) = (if x = - 1 then 1 else 1 + consumed xs)"
  by (simp_all add: consumed_def shown_simps)

lemma no_sentinel:
  "- 1 \<notin> set ws \<Longrightarrow> shown ws = ws \<and> consumed ws = length ws"
  by (induction ws) (auto simp: shown_simps consumed_simps)











lemma four_halved: "long_div 4 2 = 2" "\<not> (2 :: long) <s 1"
  by (simp_all add: long_div_def signed_divide_int_def word_sless_alt)


lemma long_rem_small:
  "long_rem 1 400 = 1" "long_rem 2 400 = 2" "long_rem 3 400 = 3" "long_div 2 2 = 1"
  "\<not> (1 :: long) <s 1"
  by (simp_all add: long_rem_def long_div_def signed_modulo_int_def signed_divide_int_def
      word_sless_alt)

lemma Suc_Suc_0: "Suc (Suc 0) = 2"
  by simp

lemmas run_defs = Suc_Suc_0
  add_solution_def read_buffer_def sem_wait_def acquire_def wait_fails_def sem_post_def
  store_data_def advance_write_def edge_at_def in_bounds_def slot_def MAX_DATA_def
  served_state zero_region_def Let_def long_rem_small

lemma zero_frame_state:
  "\<not> quit zero_frame" "fst (read_buffer zero_frame) = Ret 0"
  "loads (trace (snd (read_buffer zero_frame))) = [0]"
  by (simp_all add: zero_frame_def run_defs add_loop.simps loads_def)

lemma long_rem_more:
  "long_rem 4 400 = 4" "long_rem 5 400 = 5" "long_rem 6 400 = 6" "(0 :: long) <s 2"
  by (simp_all add: long_rem_def signed_modulo_int_def word_sless_alt)


section \<open>A frame with header 0\<close>

lemma arrives_loop:
  "arrives m w m2 w2 \<Longrightarrow> supervisor_loop m w = supervisor_loop m2 w2"
proof (induction rule: arrives.induct)
  case (here m w)
  show ?case by simp
next
  case (pass w m m1 w1 m2 w2)
  have "supervisor_loop m w = supervisor_loop m1 w1"
    using pass.hyps(1,2) by (subst supervisor_loop.simps) simp
  then show ?case using pass.IH by simp
qed

lemma resource_call_keeps:
  "region (snd (munmap v)) = region v" "sem_value (snd (munmap v)) = sem_value v"
  "quit (snd (munmap v)) = quit v"
  "region (snd (close_fd v)) = region v" "sem_value (snd (close_fd v)) = sem_value v"
  "quit (snd (close_fd v)) = quit v"
  "region (snd (shm_unlink v)) = region v" "sem_value (snd (shm_unlink v)) = sem_value v"
  "quit (snd (shm_unlink v)) = quit v"
  "region (snd (sem_close n v)) = region v" "sem_value (snd (sem_close n v)) = sem_value v"
  "quit (snd (sem_close n v)) = quit v"
  "region (snd (sem_unlink n v)) = region v" "sem_value (snd (sem_unlink n v)) = sem_value v"
  "quit (snd (sem_unlink n v)) = quit v"
  by (simp_all add: munmap_def close_fd_def shm_unlink_def sem_close_def sem_unlink_def
      logged_def)

lemma close_shm_keeps:
  "region (snd (close_shm server v)) = region v"
  "sem_value (snd (close_shm server v)) = sem_value v"
  "quit (snd (close_shm server v)) = quit v"
  by (simp_all add: close_shm_def Let_def split_beta resource_call_keeps)

lemma close_cbuff_as_close_shm:
  "close_cbuff server w =
     close_shm server
       (let w1 = (if server then in_order [sem_post SEM_FREE, sem_post SEM_USED, set_halt] w else w);
            w2 = in_order [discard (sem_close SEM_FREE), discard (sem_close SEM_USED),
                           discard (sem_close SEM_MUTEX)] w1
        in if server
           then in_order [discard (sem_unlink SEM_FREE), discard (sem_unlink SEM_USED),
                          discard (sem_unlink SEM_MUTEX)] w2
           else w2)"
  by (simp add: close_cbuff_def Let_def split: prod.splits bool.splits)

lemma close_cbuff_owner:
  "halt (region (snd (close_cbuff True v)))"
  "quit (snd (close_cbuff True v)) = quit v"
  "sem_value (snd (close_cbuff True v)) SEM_FREE = sem_value v SEM_FREE + 1"
  "sem_value (snd (close_cbuff True v)) SEM_USED = sem_value v SEM_USED + 1"
  "sem_value (snd (close_cbuff True v)) SEM_MUTEX = sem_value v SEM_MUTEX"
  by (simp_all add: close_cbuff_as_close_shm close_shm_keeps Let_def in_order_def discard_def
      resource_call_keeps set_halt_def sem_post_def)

lemma close_cbuff_intact:
  assumes "intact v"
  shows "fst (close_cbuff True v)" "released (snd (close_cbuff True v))"
  using assms
  by (simp_all add: intact_def released_def close_cbuff_def close_shm_def Let_def in_order_def
      discard_def sem_post_def set_halt_def sem_close_def sem_unlink_def munmap_def
      close_fd_def shm_unlink_def logged_def)

lemma read_buffer_intact:
  "read_buffer w = (r, w1) \<Longrightarrow> intact w1 = intact w"
  by (auto simp: read_buffer_def sem_wait_def acquire_def wait_fails_def handle_signal_def
      sem_post_def intact_def Let_def
      split: prod.splits outcome.splits list.splits wait_event.splits if_splits)


lemma close_cbuff_reads_nothing:
  "loads (trace (snd (close_cbuff server v))) = loads (trace v)"
  using close_cbuff_steps[of server v]
  by (cases server; auto simp: loads_def)

lemma close_cbuff_owner_steps:
  "\<exists>c1 c2 c3 u1 u2 u3 ok1 ok2 ok3.
     trace (snd (close_cbuff True v)) =
       trace v @
       [Post SEM_FREE, Post SEM_USED,
        Sys (SemClose SEM_FREE) c1, Sys (SemClose SEM_USED) c2, Sys (SemClose SEM_MUTEX) c3,
        Sys (SemUnlink SEM_FREE) u1, Sys (SemUnlink SEM_USED) u2, Sys (SemUnlink SEM_MUTEX) u3,
        Sys Munmap ok1, Sys Close ok2, Sys ShmUnlink ok3] \<and>
     fst (close_cbuff True v) = (ok1 \<and> ok2 \<and> ok3)"
  using close_cbuff_steps[of True v] by simp

text \<open>
  C9. Let the supervisor's loop, started by \<open>main\<close> with \<open>min_deletions = -1\<close>, have
  come to a pass in which it reads the header 0, as the first frame
  (\<open>min_deletions = -1\<close>) or as an improvement (\<open>0 < min_deletions\<close>). The pass prints
  that the graph is 3-colorable and sets \<open>quit\<close>, and the loop ends there with
  \<open>min_deletions = 0\<close>. \<open>main\<close> then returns, and by then \<open>halt\<close> is set in the
  region, \<open>free\<close> and \<open>used\<close> have been posted once each, the three semaphores have
  been closed and unlinked, the region unmapped, its descriptor closed and its name
  unlinked, each call logged with its answer; the exit code is success exactly when the
  last three calls succeeded. No word is read after the header. When the process held
  all its resources and the system refuses nothing, the exit code is success and nothing
  is left held or named.
\<close>

theorem zero_cost_termination:
  assumes "arrives (- 1) w0 m w" "\<not> quit w" "read_buffer w = (Ret 0, w1)" "m = - 1 \<or> 0 <s m"
  shows "supervisor_loop m w =
           (Ret (Continue 0),
            (printf ''[./supervisor] The graph is 3-colorable!\<newline>'' [] w1)\<lparr>quit := True\<rparr>) \<and>
         (\<exists>c w2 c1 c2 c3 u1 u2 u3 ok1 ok2 ok3.
            supervisor_run w0 = (Ret c, w2) \<and>
            c = (if ok1 \<and> ok2 \<and> ok3 then EXIT_SUCCESS else EXIT_FAILURE) \<and>
            trace w2 =
              trace w1 @
              [Printf ''[./supervisor] The graph is 3-colorable!\<newline>'' [],
               Post SEM_FREE, Post SEM_USED,
               Sys (SemClose SEM_FREE) c1, Sys (SemClose SEM_USED) c2, Sys (SemClose SEM_MUTEX) c3,
               Sys (SemUnlink SEM_FREE) u1, Sys (SemUnlink SEM_USED) u2,
               Sys (SemUnlink SEM_MUTEX) u3,
               Sys Munmap ok1, Sys Close ok2, Sys ShmUnlink ok3] @
              (if ok1 \<and> ok2 \<and> ok3 then []
               else [Eprintf ''[./supervisor] ERROR: Couldnt close circular buffer. \<newline>'']) \<and>
            loads (trace w2) = loads (trace w1) \<and>
            halt (region w2) \<and> quit w2 \<and>
            sem_value w2 SEM_FREE = sem_value w1 SEM_FREE + 1 \<and>
            sem_value w2 SEM_USED = sem_value w1 SEM_USED + 1 \<and>
            (intact w \<longrightarrow> c = EXIT_SUCCESS \<and> released w2))"
proof -
  let ?msg = "''[./supervisor] The graph is 3-colorable!\<newline>''"
  let ?err = "''[./supervisor] ERROR: Couldnt close circular buffer. \<newline>''"
  let ?W = "(printf ?msg [] w1)\<lparr>quit := True\<rparr>"
  let ?V = "set_halt ?W"
  let ?R = "close_cbuff True ?V"
  have d: "long_div 0 2 = 0"
    by (simp add: long_div_def)
  have pass: "supervisor_pass m w = (Ret (Continue 0), ?W)"
    using assms(3,4) by (auto simp: supervisor_pass_def Let_def d)
  have "supervisor_loop 0 ?W = (Ret (Continue 0), ?W)"
    by (subst supervisor_loop.simps) simp
  then have loop: "supervisor_loop m w = (Ret (Continue 0), ?W)"
    using assms(2) pass by (subst supervisor_loop.simps) simp
  have "supervisor_loop (- 1) w0 = (Ret (Continue 0), ?W)"
    using arrives_loop[OF assms(1)] loop by simp
  then have run: "supervisor_run w0 =
      (if fst ?R then (Ret EXIT_SUCCESS, snd ?R) else (Ret EXIT_FAILURE, eprintf ?err (snd ?R)))"
    by (simp add: supervisor_run_def split: prod.splits bool.splits)
  from close_cbuff_owner_steps[of ?V] obtain c1 c2 c3 u1 u2 u3 ok1 ok2 ok3 where
    t: "trace (snd ?R) = trace ?V @
        [Post SEM_FREE, Post SEM_USED,
         Sys (SemClose SEM_FREE) c1, Sys (SemClose SEM_USED) c2, Sys (SemClose SEM_MUTEX) c3,
         Sys (SemUnlink SEM_FREE) u1, Sys (SemUnlink SEM_USED) u2, Sys (SemUnlink SEM_MUTEX) u3,
         Sys Munmap ok1, Sys Close ok2, Sys ShmUnlink ok3]"
    and f: "fst ?R = (ok1 \<and> ok2 \<and> ok3)"
    by blast
  have v: "trace ?V = trace w1 @ [Printf ?msg []]" "quit ?V" "sem_value ?V = sem_value w1"
    by (simp_all add: set_halt_def printf_def)
  have iv: "intact ?V = intact w"
    using read_buffer_intact[OF assms(3)] by (simp add: intact_def set_halt_def printf_def)
  let ?w2 = "if fst ?R then snd ?R else eprintf ?err (snd ?R)"
  let ?c = "if ok1 \<and> ok2 \<and> ok3 then EXIT_SUCCESS else EXIT_FAILURE"
  have r1: "supervisor_run w0 = (Ret ?c, ?w2)"
    using run f by simp
  have r2: "trace ?w2 =
              trace w1 @
              [Printf ?msg [], Post SEM_FREE, Post SEM_USED,
               Sys (SemClose SEM_FREE) c1, Sys (SemClose SEM_USED) c2, Sys (SemClose SEM_MUTEX) c3,
               Sys (SemUnlink SEM_FREE) u1, Sys (SemUnlink SEM_USED) u2,
               Sys (SemUnlink SEM_MUTEX) u3,
               Sys Munmap ok1, Sys Close ok2, Sys ShmUnlink ok3] @
              (if ok1 \<and> ok2 \<and> ok3 then [] else [Eprintf ?err])"
    using t f v(1) by (simp add: eprintf_def)
  have r3: "loads (trace ?w2) = loads (trace w1)"
    using close_cbuff_reads_nothing[of True ?V] v(1) by (simp add: eprintf_def loads_def)
  have r4: "halt (region ?w2)" "quit ?w2"
    "sem_value ?w2 SEM_FREE = sem_value w1 SEM_FREE + 1"
    "sem_value ?w2 SEM_USED = sem_value w1 SEM_USED + 1"
    using close_cbuff_owner[of ?V] v(2,3) by (simp_all add: eprintf_def)
  have r5: "?c = EXIT_SUCCESS \<and> released ?w2" if "intact w"
    using close_cbuff_intact[of ?V] iv that f by simp
  show ?thesis
  proof (intro conjI exI)
    show "supervisor_loop m w = (Ret (Continue 0), ?W)" by (rule loop)
    show "supervisor_run w0 = (Ret ?c, ?w2)" by (rule r1)
    show "?c = (if ok1 \<and> ok2 \<and> ok3 then EXIT_SUCCESS else EXIT_FAILURE)" by (rule refl)
    show "trace ?w2 =
              trace w1 @
              [Printf ?msg [], Post SEM_FREE, Post SEM_USED,
               Sys (SemClose SEM_FREE) c1, Sys (SemClose SEM_USED) c2, Sys (SemClose SEM_MUTEX) c3,
               Sys (SemUnlink SEM_FREE) u1, Sys (SemUnlink SEM_USED) u2,
               Sys (SemUnlink SEM_MUTEX) u3,
               Sys Munmap ok1, Sys Close ok2, Sys ShmUnlink ok3] @
              (if ok1 \<and> ok2 \<and> ok3 then [] else [Eprintf ?err])" by (rule r2)
    show "loads (trace ?w2) = loads (trace w1)" by (rule r3)
    show "halt (region ?w2)" by (rule r4)
    show "quit ?w2" by (rule r4)
    show "sem_value ?w2 SEM_FREE = sem_value w1 SEM_FREE + 1" by (rule r4)
    show "sem_value ?w2 SEM_USED = sem_value w1 SEM_USED + 1" by (rule r4)
    show "intact w \<longrightarrow> ?c = EXIT_SUCCESS \<and> released ?w2" using r5 by blast
  qed
qed


lemmas pass_defs =
  supervisor_pass_def print_solution_string_def print_loop.simps printf_def four_halved
  long_rem_more

lemma zero_frame_intact: "intact zero_frame"
  by (simp add: zero_frame_def run_defs add_loop.simps intact_def)

lemma two_frames_first_pass:
  "\<not> quit two_frames" "fst (supervisor_pass (- 1) two_frames) = Ret (Continue 2)"
  by (simp_all add: two_frames_def run_defs add_loop.simps pass_defs)

lemma two_frames_second_pass:
  "\<not> quit (snd (supervisor_pass (- 1) two_frames))"
  "fst (read_buffer (snd (supervisor_pass (- 1) two_frames))) = Ret 0"
  "intact (snd (supervisor_pass (- 1) two_frames))"
  "loads (trace (snd (read_buffer (snd (supervisor_pass (- 1) two_frames))))) =
     [4, 10, 20, 30, 5, 0]"
  by (simp_all add: two_frames_def run_defs add_loop.simps pass_defs intact_def loads_def)

theorem zero_cost_termination_witness:
  "(\<exists>w2. supervisor_run zero_frame = (Ret EXIT_SUCCESS, w2) \<and> halt (region w2) \<and>
      released w2 \<and> loads (trace w2) = [0]) \<and>
   (\<exists>w2. supervisor_run two_frames = (Ret EXIT_SUCCESS, w2) \<and> halt (region w2) \<and>
      released w2 \<and> loads (trace w2) = [4, 10, 20, 30, 5, 0])"
proof
  have r: "read_buffer zero_frame = (Ret 0, snd (read_buffer zero_frame))"
    using zero_frame_state(2) by (cases "read_buffer zero_frame") simp
  have a: "arrives (- 1) zero_frame (- 1) zero_frame"
    by (rule arrives.here)
  from zero_cost_termination[OF a zero_frame_state(1) r] zero_frame_intact zero_frame_state(3)
  show "\<exists>w2. supervisor_run zero_frame = (Ret EXIT_SUCCESS, w2) \<and> halt (region w2) \<and>
      released w2 \<and> loads (trace w2) = [0]"
    by auto
next
  let ?w = "snd (supervisor_pass (- 1) two_frames)"
  have p: "supervisor_pass (- 1) two_frames = (Ret (Continue 2), ?w)"
    using two_frames_first_pass(2) by (cases "supervisor_pass (- 1) two_frames") simp
  have a: "arrives (- 1) two_frames 2 ?w"
    by (rule arrives.pass[OF two_frames_first_pass(1) p arrives.here])
  have r: "read_buffer ?w = (Ret 0, snd (read_buffer ?w))"
    using two_frames_second_pass(2) by (cases "read_buffer ?w") simp
  have m: "(2 :: long) = - 1 \<or> 0 <s (2 :: long)"
    by (simp add: long_rem_more)
  from zero_cost_termination[OF a two_frames_second_pass(1) r m]
    two_frames_second_pass(3,4)
  show "\<exists>w2. supervisor_run two_frames = (Ret EXIT_SUCCESS, w2) \<and> halt (region w2) \<and>
      released w2 \<and> loads (trace w2) = [4, 10, 20, 30, 5, 0]"
    by auto
qed


section \<open>The value -1 as data and as error\<close>

lemmas close_defs =
  close_cbuff_def close_shm_def sem_close_def sem_unlink_def munmap_def close_fd_def
  shm_unlink_def logged_def in_order_def discard_def set_halt_def eprintf_def printf_def

lemma sentinel_frame_state:
  "failed_waits (trace sentinel_frame) = []" "pending sentinel_frame = [2, - 1, - 1]"
  "fst (read_buffer sentinel_frame) = Ret 2"
  by (simp_all add: sentinel_frame_def run_defs add_loop.simps failed_waits_def pending_def
      upt_rec)

lemma sentinel_frame_skip:
  "(case skip_solution 2 (snd (read_buffer sentinel_frame)) of
      (r, wa) \<Rightarrow> r = Ret () \<and> pending wa = [- 1] \<and> failed_waits (trace wa) = [])"
  by (simp add: sentinel_frame_def run_defs add_loop.simps skip_solution_def skip_loop.simps
      failed_waits_def pending_def upt_rec)

lemma sentinel_frame_print:
  "(case print_solution_string 2 (snd (read_buffer sentinel_frame)) of
      (r, wb) \<Rightarrow> r = Ret () \<and> pending wb = [- 1] \<and> printed (trace wb) = [] \<and>
        failed_waits (trace wb) = [])"
  by (simp add: sentinel_frame_def run_defs add_loop.simps print_solution_string_def
      print_loop.simps failed_waits_def printed_def pending_def upt_rec)

lemma sentinel_frame_loop:
  "(case supervisor_loop 1 sentinel_frame of
      (r, wc) \<Rightarrow> r = Ret (Exit EXIT_FAILURE) \<and> failed_waits (trace wc) = [] \<and>
        loads (trace wc) = [2, - 1, - 1] \<and> shm_named wc)"
  by (simp add: sentinel_frame_def run_defs add_loop.simps supervisor_loop.simps
      supervisor_pass_def skip_solution_def skip_loop.simps close_defs
      failed_waits_def loads_def)


lemma interrupted_read: "fst (read_buffer (served\<lparr>waits := [Sigint]\<rparr>)) = Ret (- 1)"
  by (simp add: run_defs handle_signal_def)

text \<open>
  C10. Whenever \<open>read_buffer\<close> returns \<open>-1\<close>, \<open>skip_solution\<close> and
  \<open>print_solution_string\<close> return at once, and the supervisor's pass takes the error
  branch: it goes on only if \<open>errno\<close> is \<open>EINTR\<close> and otherwise closes the buffer and
  exits with failure. \<open>read_buffer\<close> returns \<open>-1\<close> after a failed wait, and it returns
  \<open>-1\<close> for a stored word \<open>-1\<close>: after the frame \<open>2 | -1 | -1\<close> has been submitted, with
  no failed wait anywhere, \<open>skip_solution\<close> and \<open>print_solution_string\<close> stop after one
  of the two payload words, and the supervisor's loop (holding a best of 1) reads the
  second payload word as a header and exits with failure, the region still named.
\<close>

theorem sentinel_collision:
  "(read_buffer w = (Ret (- 1), w1) \<and> i < unat sz \<longrightarrow>
      skip_loop sz i w = (Ret (), w1) \<and> print_loop sz i w = (Ret (), w1)) \<and>
   (read_buffer w = (Ret (- 1), w1) \<longrightarrow>
      supervisor_pass m w =
        (if errno w1 = EINTR then (Ret (Continue m), w1)
         else case close_cbuff False w1 of
                (False, w2) \<Rightarrow>
                  (Ret (Exit EXIT_FAILURE),
                   eprintf ''[./supervisor] ERROR: Couldn't close circular buffer. \<newline>'' w2)
              | (True, w2) \<Rightarrow>
                  (Ret (Exit EXIT_FAILURE),
                   eprintf ''[./supervisor] ERROR: Interrupt error. \<newline>Usage: ./supervisor \<newline>'' w2))) \<and>
   fst (read_buffer (served\<lparr>waits := [Sigint]\<rparr>)) = Ret (- 1) \<and>
   failed_waits (trace sentinel_frame) = [] \<and> pending sentinel_frame = [2, - 1, - 1] \<and>
   fst (read_buffer sentinel_frame) = Ret 2 \<and>
   (case skip_solution 2 (snd (read_buffer sentinel_frame)) of
      (r, wa) \<Rightarrow> r = Ret () \<and> pending wa = [- 1] \<and> failed_waits (trace wa) = []) \<and>
   (case print_solution_string 2 (snd (read_buffer sentinel_frame)) of
      (r, wb) \<Rightarrow> r = Ret () \<and> pending wb = [- 1] \<and> printed (trace wb) = [] \<and>
        failed_waits (trace wb) = []) \<and>
   (case supervisor_loop 1 sentinel_frame of
      (r, wc) \<Rightarrow> r = Ret (Exit EXIT_FAILURE) \<and> failed_waits (trace wc) = [] \<and>
        loads (trace wc) = [2, - 1, - 1] \<and> shm_named wc)"
proof -
  have loops: "skip_loop sz i w = (Ret (), w1) \<and> print_loop sz i w = (Ret (), w1)"
    if "read_buffer w = (Ret (- 1), w1) \<and> i < unat sz"
    using that by (subst skip_loop.simps, subst print_loop.simps) simp
  have pass: "supervisor_pass m w =
        (if errno w1 = EINTR then (Ret (Continue m), w1)
         else case close_cbuff False w1 of
                (False, w2) \<Rightarrow>
                  (Ret (Exit EXIT_FAILURE),
                   eprintf ''[./supervisor] ERROR: Couldn't close circular buffer. \<newline>'' w2)
              | (True, w2) \<Rightarrow>
                  (Ret (Exit EXIT_FAILURE),
                   eprintf ''[./supervisor] ERROR: Interrupt error. \<newline>Usage: ./supervisor \<newline>'' w2))"
    if "read_buffer w = (Ret (- 1), w1)"
    using that by (simp add: supervisor_pass_def)
  show ?thesis
    using loops pass interrupted_read sentinel_frame_state sentinel_frame_skip
      sentinel_frame_print sentinel_frame_loop
    by (intro conjI impI) blast+
qed

lemma after_header_state:
  "fst (read_buffer (snd (read_buffer sentinel_frame))) = Ret (- 1)"
  "errno (snd (read_buffer (snd (read_buffer sentinel_frame)))) = ENONE"
  "failed_waits (trace (snd (read_buffer (snd (read_buffer sentinel_frame))))) = []"
  by (simp_all add: sentinel_frame_def run_defs add_loop.simps failed_waits_def)

theorem sentinel_collision_witness:
  "skip_loop 2 0 (snd (read_buffer sentinel_frame)) =
     (Ret (), snd (read_buffer (snd (read_buffer sentinel_frame)))) \<and>
   print_loop 2 0 (snd (read_buffer sentinel_frame)) =
     (Ret (), snd (read_buffer (snd (read_buffer sentinel_frame)))) \<and>
   fst (supervisor_pass 1 (snd (read_buffer sentinel_frame))) = Ret (Exit EXIT_FAILURE) \<and>
   failed_waits (trace (snd (read_buffer (snd (read_buffer sentinel_frame))))) = []"
proof -
  let ?w = "snd (read_buffer sentinel_frame)"
  let ?w1 = "snd (read_buffer ?w)"
  have r: "read_buffer ?w = (Ret (- 1), ?w1)"
    using after_header_state(1) by (cases "read_buffer ?w") simp
  have i: "0 < unat (2 :: size_t)"
    by simp
  note t = sentinel_collision[of ?w ?w1 0 2 1]
  have a: "skip_loop 2 0 ?w = (Ret (), ?w1) \<and> print_loop 2 0 ?w = (Ret (), ?w1)"
    using t r i by blast
  have "supervisor_pass 1 ?w =
        (if errno ?w1 = EINTR then (Ret (Continue 1), ?w1)
         else case close_cbuff False ?w1 of
                (False, w2) \<Rightarrow>
                  (Ret (Exit EXIT_FAILURE),
                   eprintf ''[./supervisor] ERROR: Couldn't close circular buffer. \<newline>'' w2)
              | (True, w2) \<Rightarrow>
                  (Ret (Exit EXIT_FAILURE),
                   eprintf ''[./supervisor] ERROR: Interrupt error. \<newline>Usage: ./supervisor \<newline>'' w2))"
    using t r by blast
  then have b: "fst (supervisor_pass 1 ?w) = Ret (Exit EXIT_FAILURE)"
    by (simp add: after_header_state(2) split: prod.splits bool.splits)
  from a b after_header_state(3) show ?thesis by blast
qed


end
